theory Spec2Isabelle
  imports Main "HOL-Library.Word"
begin

unbundle bit_operations_syntax

section \<open>The cgroup freezer: data model\<close>

text \<open>
  The source is the cgroup v2 freezer (\<open>cgroup_update_frozen\<close> ... \<open>cgroup_freeze\<close>) together
  with the legacy freezer subsystem (\<open>freezer_apply_state\<close>, \<open>freezer_change_state\<close>,
  \<open>unfreezer_fork\<close>), both in \<open>src/unnamed/part_001\<close>.

  A cgroup is named by its path, own name first, so that the parent of \<open>n # p\<close> is \<open>p\<close> and
  the root is \<open>[]\<close>: the loop \<open>while ((cgrp = cgroup_parent(cgrp)))\<close> is then a structural
  recursion. The tree itself (which groups exist, in which pre-order they are listed, whether
  a group is dead, how many descendants and tasks it has) is maintained outside the file and
  is carried by the state as data.

  The counters are C \<open>int\<close>; they are modelled as unbounded integers, so that a negative value
  is representable and the \<open>WARN_ON_ONCE\<close> tests can be written as in the source.
\<close>

type_synonym cgrp_id = "nat list"
type_synonym task_id = nat

datatype cgrp_flag = CGRP_FREEZE | CGRP_FROZEN

record cgroup_freezer_state =
  freeze :: bool
  e_freeze :: int
  nr_frozen_descendants :: int
  nr_frozen_tasks :: int

text \<open>
  \<open>task_count\<close> is the value \<open>__cgroup_task_count(cgrp)\<close> returns and \<open>is_dead\<close> the value of
  \<open>cgroup_is_dead(cgrp)\<close>; neither function is part of the source file.
\<close>

record cgroup =
  flags :: "cgrp_flag set"
  nr_descendants :: int
  task_count :: int
  is_dead :: bool
  freezer :: cgroup_freezer_state

text \<open>
  \<open>pf_kthread\<close> is \<open>task->flags & PF_KTHREAD\<close>, \<open>trap_freeze\<close> is
  \<open>task->jobctl & JOBCTL_TRAP_FREEZE\<close>, \<open>has_sighand\<close> tells whether
  \<open>lock_task_sighand\<close> succeeds (it fails for a task that is about to die), and
  \<open>dfl_cgroup\<close> is \<open>task_dfl_cgroup(task)\<close>.
\<close>

record task_struct =
  pf_kthread :: bool
  frozen :: bool
  trap_freeze :: bool
  has_sighand :: bool
  dfl_cgroup :: cgrp_id

text \<open>Calls that leave the file are recorded, in order, as events.\<close>

datatype event =
    File_notify cgrp_id
  | Signal_wake_up task_id
  | Wake_up_process task_id
  | Recalc_sigpending task_id
  | Warn_on_once

record kstate =
  cgrps :: "cgrp_id \<Rightarrow> cgroup"
  tasks :: "task_id \<Rightarrow> task_struct"
  all_cgroups :: "cgrp_id list"
  all_tasks :: "task_id list"
  events :: "event list"

section \<open>Helpers standing for kernel primitives\<close>

definition test_bit_flag :: "cgrp_flag \<Rightarrow> cgrp_flag set \<Rightarrow> bool" where
  "test_bit_flag b fl = (b \<in> fl)"

definition set_bit_flag :: "cgrp_flag \<Rightarrow> cgrp_flag set \<Rightarrow> cgrp_flag set" where
  "set_bit_flag b fl = insert b fl"

definition clear_bit_flag :: "cgrp_flag \<Rightarrow> cgrp_flag set \<Rightarrow> cgrp_flag set" where
  "clear_bit_flag b fl = fl - {b}"

definition upd_cgrp :: "cgrp_id \<Rightarrow> (cgroup \<Rightarrow> cgroup) \<Rightarrow> kstate \<Rightarrow> kstate" where
  "upd_cgrp g f s = s\<lparr>cgrps := (cgrps s)(g := f (cgrps s g))\<rparr>"

definition upd_task :: "task_id \<Rightarrow> (task_struct \<Rightarrow> task_struct) \<Rightarrow> kstate \<Rightarrow> kstate" where
  "upd_task t f s = s\<lparr>tasks := (tasks s)(t := f (tasks s t))\<rparr>"

definition emit :: "event \<Rightarrow> kstate \<Rightarrow> kstate" where
  "emit e s = s\<lparr>events := events s @ [e]\<rparr>"

definition cgroup_file_notify :: "cgrp_id \<Rightarrow> kstate \<Rightarrow> kstate" where
  "cgroup_file_notify g s = emit (File_notify g) s"

text \<open>
  \<open>WARN_ON_ONCE\<close> is not defined in the file. A firing is recorded as an event and the
  function goes on with its next statement; whether a firing stops the system is not
  modelled.
\<close>

definition WARN_ON_ONCE :: "bool \<Rightarrow> kstate \<Rightarrow> kstate" where
  "WARN_ON_ONCE c s = (if c then emit Warn_on_once s else s)"

fun cgroup_parent :: "cgrp_id \<Rightarrow> cgrp_id option" where
  "cgroup_parent [] = None"
| "cgroup_parent (n # p) = Some p"

text \<open>\<open>is_descendant d g\<close>: \<open>g\<close> is \<open>d\<close> or one of its ancestors.\<close>

fun is_descendant :: "cgrp_id \<Rightarrow> cgrp_id \<Rightarrow> bool" where
  "is_descendant [] g = (g = [])"
| "is_descendant (n # p) g = (g = n # p \<or> is_descendant p g)"

text \<open>
  Modelled from the spec: the iterator \<open>css_for_each_descendant_pre\<close> is not in the source
  file. According to the spec the walk visits the group and its descendants in the pre-order
  the tree gives.
\<close>

definition css_for_each_descendant_pre :: "cgrp_id \<Rightarrow> kstate \<Rightarrow> cgrp_id list" where
  "css_for_each_descendant_pre g s = filter (\<lambda>d. is_descendant d g) (all_cgroups s)"

text \<open>
  Modelled from the spec: the iterator \<open>css_task_iter\<close> is not in the source file. According
  to the spec the tasks visited for a group are the processes the group directly owns.
\<close>

definition css_task_iter :: "cgrp_id \<Rightarrow> kstate \<Rightarrow> task_id list" where
  "css_task_iter g s = filter (\<lambda>t. dfl_cgroup (tasks s t) = g) (all_tasks s)"

section \<open>The cgroup v2 freezer\<close>

text \<open>
  \<open>cgroup_propagate_frozen\<close>: the third argument is the local \<open>desc\<close>, which starts at 1.
  The first argument is the group whose parent is visited next.
\<close>

fun cgroup_propagate_frozen :: "cgrp_id \<Rightarrow> bool \<Rightarrow> int \<Rightarrow> kstate \<Rightarrow> kstate" where
  "cgroup_propagate_frozen [] fr desc s = s"
| "cgroup_propagate_frozen (n # p) fr desc s =
     (if fr then
        (let s1 = upd_cgrp p (\<lambda>c. c\<lparr>freezer := (freezer c)
                    \<lparr>nr_frozen_descendants := nr_frozen_descendants (freezer c) + desc\<rparr>\<rparr>) s;
             c1 = cgrps s1 p
         in if \<not> test_bit_flag CGRP_FROZEN (flags c1) \<and>
               test_bit_flag CGRP_FREEZE (flags c1) \<and>
               nr_frozen_descendants (freezer c1) = nr_descendants c1
            then cgroup_propagate_frozen p fr (desc + 1)
                   (cgroup_file_notify p
                     (upd_cgrp p (\<lambda>c. c\<lparr>flags := set_bit_flag CGRP_FROZEN (flags c)\<rparr>) s1))
            else cgroup_propagate_frozen p fr desc s1)
      else
        (let s1 = upd_cgrp p (\<lambda>c. c\<lparr>freezer := (freezer c)
                    \<lparr>nr_frozen_descendants := nr_frozen_descendants (freezer c) - desc\<rparr>\<rparr>) s
         in if test_bit_flag CGRP_FROZEN (flags (cgrps s1 p))
            then cgroup_propagate_frozen p fr (desc + 1)
                   (cgroup_file_notify p
                     (upd_cgrp p (\<lambda>c. c\<lparr>flags := clear_bit_flag CGRP_FROZEN (flags c)\<rparr>) s1))
            else cgroup_propagate_frozen p fr desc s1))"

definition cgroup_update_frozen :: "cgrp_id \<Rightarrow> kstate \<Rightarrow> kstate" where
  "cgroup_update_frozen g s =
     (let c = cgrps s g;
          fr = (test_bit_flag CGRP_FREEZE (flags c) \<and>
                nr_frozen_tasks (freezer c) = task_count c)
      in if fr then
           (if test_bit_flag CGRP_FROZEN (flags c) then s
            else cgroup_propagate_frozen g fr 1
                   (cgroup_file_notify g
                     (upd_cgrp g (\<lambda>c. c\<lparr>flags := set_bit_flag CGRP_FROZEN (flags c)\<rparr>) s)))
         else
           (if \<not> test_bit_flag CGRP_FROZEN (flags c) then s
            else cgroup_propagate_frozen g fr 1
                   (cgroup_file_notify g
                     (upd_cgrp g (\<lambda>c. c\<lparr>flags := clear_bit_flag CGRP_FROZEN (flags c)\<rparr>) s))))"

definition cgroup_inc_frozen_cnt :: "cgrp_id \<Rightarrow> kstate \<Rightarrow> kstate" where
  "cgroup_inc_frozen_cnt g s =
     upd_cgrp g (\<lambda>c. c\<lparr>freezer := (freezer c)
                  \<lparr>nr_frozen_tasks := nr_frozen_tasks (freezer c) + 1\<rparr>\<rparr>) s"

definition cgroup_dec_frozen_cnt :: "cgrp_id \<Rightarrow> kstate \<Rightarrow> kstate" where
  "cgroup_dec_frozen_cnt g s =
     (let s1 = upd_cgrp g (\<lambda>c. c\<lparr>freezer := (freezer c)
                  \<lparr>nr_frozen_tasks := nr_frozen_tasks (freezer c) - 1\<rparr>\<rparr>) s
      in WARN_ON_ONCE (nr_frozen_tasks (freezer (cgrps s1 g)) < 0) s1)"

text \<open>\<open>cgroup_enter_frozen\<close> and \<open>cgroup_leave_frozen\<close> act on \<open>current\<close>, here \<open>cur\<close>.\<close>

definition cgroup_enter_frozen :: "task_id \<Rightarrow> kstate \<Rightarrow> kstate" where
  "cgroup_enter_frozen cur s =
     (if frozen (tasks s cur) then s
      else (let s1 = upd_task cur (\<lambda>t. t\<lparr>frozen := True\<rparr>) s;
                cgrp = dfl_cgroup (tasks s1 cur)
            in cgroup_update_frozen cgrp (cgroup_inc_frozen_cnt cgrp s1)))"

definition recalc_sigpending :: "task_id \<Rightarrow> kstate \<Rightarrow> kstate" where
  "recalc_sigpending cur s = emit (Recalc_sigpending cur) s"

definition cgroup_leave_frozen :: "bool \<Rightarrow> task_id \<Rightarrow> kstate \<Rightarrow> kstate" where
  "cgroup_leave_frozen always_leave cur s =
     (let cgrp = dfl_cgroup (tasks s cur);
          s1 = (if always_leave \<or> \<not> test_bit_flag CGRP_FREEZE (flags (cgrps s cgrp))
                then (let s2 = cgroup_update_frozen cgrp (cgroup_dec_frozen_cnt cgrp s);
                          s3 = WARN_ON_ONCE (\<not> frozen (tasks s2 cur)) s2
                      in upd_task cur (\<lambda>t. t\<lparr>frozen := False\<rparr>) s3)
                else s)
      in if frozen (tasks s1 cur) then recalc_sigpending cur s1 else s1)"

definition cgroup_freeze_task :: "task_id \<Rightarrow> bool \<Rightarrow> kstate \<Rightarrow> kstate" where
  "cgroup_freeze_task t fz s =
     (if \<not> has_sighand (tasks s t) then s
      else if fz then emit (Signal_wake_up t) (upd_task t (\<lambda>x. x\<lparr>trap_freeze := True\<rparr>) s)
      else emit (Wake_up_process t) (upd_task t (\<lambda>x. x\<lparr>trap_freeze := False\<rparr>) s))"

text \<open>
  \<open>cgroup_do_freeze\<close>; \<open>do_freeze_task\<close> is the body of its loop over the tasks of the
  group.
\<close>

definition do_freeze_task :: "bool \<Rightarrow> task_id \<Rightarrow> kstate \<Rightarrow> kstate" where
  "do_freeze_task fz t s = (if pf_kthread (tasks s t) then s else cgroup_freeze_task t fz s)"

definition cgroup_do_freeze :: "cgrp_id \<Rightarrow> bool \<Rightarrow> kstate \<Rightarrow> kstate" where
  "cgroup_do_freeze g fz s =
     (let s1 = upd_cgrp g (\<lambda>c. c\<lparr>flags := (if fz then set_bit_flag CGRP_FREEZE (flags c)
                                            else clear_bit_flag CGRP_FREEZE (flags c))\<rparr>) s;
          s2 = fold (do_freeze_task fz) (css_task_iter g s1) s1
      in if nr_descendants (cgrps s2 g) = nr_frozen_descendants (freezer (cgrps s2 g))
         then cgroup_update_frozen g s2 else s2)"

definition cgroup_freezer_migrate_task :: "task_id \<Rightarrow> cgrp_id \<Rightarrow> cgrp_id \<Rightarrow> kstate \<Rightarrow> kstate" where
  "cgroup_freezer_migrate_task t src dst s =
     (if pf_kthread (tasks s t) then s
      else (let s1 = (if frozen (tasks s t)
                      then cgroup_dec_frozen_cnt src (cgroup_inc_frozen_cnt dst s) else s);
                s2 = cgroup_update_frozen src (cgroup_update_frozen dst s1)
            in cgroup_freeze_task t (test_bit_flag CGRP_FREEZE (flags (cgrps s2 dst))) s2))"

definition cgroup_freezer_frozen_exit :: "task_id \<Rightarrow> kstate \<Rightarrow> kstate" where
  "cgroup_freezer_frozen_exit t s =
     (let cgrp = dfl_cgroup (tasks s t)
      in cgroup_update_frozen cgrp (cgroup_dec_frozen_cnt cgrp s))"

text \<open>
  The body of the loop of \<open>cgroup_freeze\<close>, for the descendant \<open>dsct\<close>; the second component
  of the pair is the local \<open>applied\<close>.
\<close>

definition cgroup_freeze_step :: "bool \<Rightarrow> cgrp_id \<Rightarrow> kstate \<times> bool \<Rightarrow> kstate \<times> bool" where
  "cgroup_freeze_step fz dsct sa =
     (let s = fst sa; applied = snd sa
      in if is_dead (cgrps s dsct) then (s, applied)
         else if fz then
           (let s1 = upd_cgrp dsct (\<lambda>c. c\<lparr>freezer := (freezer c)
                        \<lparr>e_freeze := e_freeze (freezer c) + 1\<rparr>\<rparr>) s
            in if e_freeze (freezer (cgrps s1 dsct)) > 1 then (s1, applied)
               else (cgroup_do_freeze dsct fz s1, True))
         else
           (let s1 = upd_cgrp dsct (\<lambda>c. c\<lparr>freezer := (freezer c)
                        \<lparr>e_freeze := e_freeze (freezer c) - 1\<rparr>\<rparr>) s
            in if e_freeze (freezer (cgrps s1 dsct)) > 0 then (s1, applied)
               else (cgroup_do_freeze dsct fz
                       (WARN_ON_ONCE (e_freeze (freezer (cgrps s1 dsct)) < 0) s1), True)))"

definition cgroup_freeze :: "cgrp_id \<Rightarrow> bool \<Rightarrow> kstate \<Rightarrow> kstate" where
  "cgroup_freeze cgrp fz s =
     (if freeze (freezer (cgrps s cgrp)) = fz then s
      else (let s1 = upd_cgrp cgrp (\<lambda>c. c\<lparr>freezer := (freezer c)\<lparr>freeze := fz\<rparr>\<rparr>) s;
                r = fold (cgroup_freeze_step fz) (css_for_each_descendant_pre cgrp s1) (s1, False)
            in if \<not> snd r then cgroup_file_notify cgrp (fst r) else fst r))"

section \<open>The legacy freezer\<close>

text \<open>
  \<open>enum freezer_state_flags\<close>; \<open>freezer->state\<close> is an \<open>unsigned int\<close>.
\<close>

definition CGROUP_FREEZER_ONLINE :: "32 word" where
  "CGROUP_FREEZER_ONLINE = push_bit 0 1"

definition CGROUP_FREEZING_SELF :: "32 word" where
  "CGROUP_FREEZING_SELF = push_bit 1 1"

definition CGROUP_FREEZING_PARENT :: "32 word" where
  "CGROUP_FREEZING_PARENT = push_bit 2 1"

definition CGROUP_FROZEN :: "32 word" where
  "CGROUP_FROZEN = push_bit 3 1"

definition CGROUP_FREEZING :: "32 word" where
  "CGROUP_FREEZING = CGROUP_FREEZING_SELF OR CGROUP_FREEZING_PARENT"

text \<open>
  \<open>struct freezer\<close>. Of the embedded \<open>css\<close> the code uses the parent link, which is the path
  of the freezer as for cgroups, and \<open>css_tryget_online\<close>, whose result is \<open>css_online\<close>.
\<close>

record freezer =
  state :: "32 word"
  oem_freeze_flag :: "32 word"
  css_online :: bool

text \<open>
  The fields of a task the legacy code reads: \<open>task->real_cred\<close> (\<open>None\<close> for a null
  pointer, otherwise \<open>real_cred->uid.val\<close>) and the freezer the task belongs to
  (\<open>task_freezer(task)\<close>).
\<close>

record cred_task =
  real_cred :: "32 word option"
  task_freezer :: cgrp_id

text \<open>
  \<open>freeze_cgroup_task\<close> and \<open>__thaw_task\<close> (here \<open>thaw_task\<close>) are defined outside the
  file; a call is recorded as an event.
\<close>

datatype legacy_event = Freeze_cgroup_task task_id | Thaw_task task_id

text \<open>
  \<open>css_tasks\<close> gives, for each freezer, the tasks in the order \<open>css_task_iter_next\<close> yields
  them; \<open>all_threads\<close> is the order of \<open>do_each_thread\<close>.
\<close>

record lstate =
  freezers :: "cgrp_id \<Rightarrow> freezer"
  all_css :: "cgrp_id list"
  css_tasks :: "cgrp_id \<Rightarrow> task_id list"
  all_threads :: "task_id list"
  ltasks :: "task_id \<Rightarrow> cred_task"
  system_freezing_cnt :: int
  levents :: "legacy_event list"

definition upd_freezer :: "cgrp_id \<Rightarrow> (freezer \<Rightarrow> freezer) \<Rightarrow> lstate \<Rightarrow> lstate" where
  "upd_freezer f u s = s\<lparr>freezers := (freezers s)(f := u (freezers s f))\<rparr>"

definition freeze_cgroup_task :: "task_id \<Rightarrow> lstate \<Rightarrow> lstate" where
  "freeze_cgroup_task t s = s\<lparr>levents := levents s @ [Freeze_cgroup_task t]\<rparr>"

definition thaw_task :: "task_id \<Rightarrow> lstate \<Rightarrow> lstate" where
  "thaw_task t s = s\<lparr>levents := levents s @ [Thaw_task t]\<rparr>"

definition parent_freezer :: "cgrp_id \<Rightarrow> cgrp_id option" where
  "parent_freezer f = cgroup_parent f"

definition freeze_cgroup :: "cgrp_id \<Rightarrow> lstate \<Rightarrow> lstate" where
  "freeze_cgroup f s = fold freeze_cgroup_task (css_tasks s f) s"

text \<open>The first loop of \<open>unfreeze_cgroup\<close>; the pair carries \<open>tmp_uid_val\<close>.\<close>

definition unfreeze_iter :: "task_id \<Rightarrow> 32 word \<times> lstate \<Rightarrow> 32 word \<times> lstate" where
  "unfreeze_iter t us =
     (let tmp_uid_val = (case real_cred (ltasks (snd us) t) of Some v \<Rightarrow> v | None \<Rightarrow> fst us)
      in (tmp_uid_val, thaw_task t (snd us)))"

definition thaw_same_uid :: "32 word \<Rightarrow> task_id \<Rightarrow> lstate \<Rightarrow> lstate" where
  "thaw_same_uid tmp_uid_val p s =
     (if real_cred (ltasks s p) \<noteq> None \<and> real_cred (ltasks s p) = Some tmp_uid_val
      then thaw_task p s else s)"

definition unfreeze_cgroup :: "cgrp_id \<Rightarrow> lstate \<Rightarrow> lstate" where
  "unfreeze_cgroup f s =
     (let us = fold unfreeze_iter (css_tasks s f) (- 1, s)
      in fold (thaw_same_uid (fst us)) (all_threads (snd us)) (snd us))"

definition freezer_apply_state :: "cgrp_id \<Rightarrow> bool \<Rightarrow> 32 word \<Rightarrow> lstate \<Rightarrow> lstate" where
  "freezer_apply_state f fz st s =
     (if state (freezers s f) AND CGROUP_FREEZER_ONLINE = 0 then s
      else if fz then
        (let s1 = (if state (freezers s f) AND CGROUP_FREEZING = 0
                   then s\<lparr>system_freezing_cnt := system_freezing_cnt s + 1\<rparr> else s);
             s2 = upd_freezer f (\<lambda>x. x\<lparr>state := state x OR st\<rparr>) s1
         in freeze_cgroup f s2)
      else
        (let was_freezing = (state (freezers s f) AND CGROUP_FREEZING \<noteq> 0);
             s1 = upd_freezer f (\<lambda>x. x\<lparr>state := state x AND NOT st\<rparr>) s
         in if state (freezers s1 f) AND CGROUP_FREEZING = 0
            then (let s2 = (if was_freezing
                            then s1\<lparr>system_freezing_cnt := system_freezing_cnt s1 - 1\<rparr> else s1);
                      s3 = upd_freezer f (\<lambda>x. x\<lparr>state := state x AND NOT CGROUP_FROZEN\<rparr>) s2
                  in unfreeze_cgroup f s3)
            else s1))"

text \<open>
  Modelled from the spec: the iterator \<open>css_for_each_descendant_pre\<close> is not in the source
  file. It visits the freezer and its descendants in the pre-order the tree gives.
\<close>

definition css_descendants_pre :: "cgrp_id \<Rightarrow> lstate \<Rightarrow> cgrp_id list" where
  "css_descendants_pre f s = filter (\<lambda>d. is_descendant d f) (all_css s)"

text \<open>
  The body of the loop of \<open>freezer_change_state\<close>. A position other than the walk's root has
  a parent; the \<open>None\<close> case stands for the null pointer the source would dereference.
\<close>

definition change_state_step :: "cgrp_id \<Rightarrow> bool \<Rightarrow> cgrp_id \<Rightarrow> lstate \<Rightarrow> lstate" where
  "change_state_step f fz pos s =
     (if \<not> css_online (freezers s pos) then s
      else if pos = f then freezer_apply_state pos fz CGROUP_FREEZING_SELF s
      else (case parent_freezer pos of
              None \<Rightarrow> s
            | Some parent \<Rightarrow>
                freezer_apply_state pos (state (freezers s parent) AND CGROUP_FREEZING \<noteq> 0)
                  CGROUP_FREEZING_PARENT s))"

definition freezer_change_state :: "cgrp_id \<Rightarrow> bool \<Rightarrow> lstate \<Rightarrow> lstate" where
  "freezer_change_state f fz s =
     (let s1 = upd_freezer f (\<lambda>x. x\<lparr>oem_freeze_flag := (if fz then 1 else 0)\<rparr>) s
      in fold (change_state_step f fz) (css_descendants_pre f s1) s1)"

text \<open>
  \<open>unfreezer_fork\<close>; the \<open>pr_debug\<close> line only prints and is left out.
\<close>

definition task_css_is_root :: "task_id \<Rightarrow> lstate \<Rightarrow> bool" where
  "task_css_is_root t s = (task_freezer (ltasks s t) = [])"

definition unfreezer_fork :: "task_id \<Rightarrow> lstate \<Rightarrow> lstate" where
  "unfreezer_fork t s =
     (if task_css_is_root t s then s
      else (let f = task_freezer (ltasks s t)
            in if oem_freeze_flag (freezers s f) \<noteq> 1 then s
               else freezer_change_state f False s))"

subsection \<open>An example hierarchy of freezers\<close>

text \<open>
  Four online freezers, none freezing: the root, \<open>[1]\<close> with the tasks 10 (uid 1000) and 11
  (uid 1001), its child \<open>[2, 1]\<close> with task 12 (uid 1000), and \<open>[3]\<close> with task 13
  (uid 1001). In \<open>ex_forked\<close> a freeze of \<open>[1]\<close> has been requested and task 14 has then been
  forked into \<open>[1]\<close>.
\<close>

definition mk_freezer :: "32 word \<Rightarrow> 32 word \<Rightarrow> freezer" where
  "mk_freezer st oem = \<lparr>state = st, oem_freeze_flag = oem, css_online = True\<rparr>"

definition ex_lstate :: lstate where
  "ex_lstate = \<lparr>freezers = (\<lambda>f. mk_freezer 0 0)([] := mk_freezer 1 0, [1] := mk_freezer 1 0,
                               [2, 1] := mk_freezer 1 0, [3] := mk_freezer 1 0),
     all_css = [[], [1], [2, 1], [3]],
     css_tasks = (\<lambda>f. [])([1] := [10, 11], [2, 1] := [12], [3] := [13]),
     all_threads = [10, 11, 12, 13],
     ltasks = (\<lambda>t. \<lparr>real_cred = None, task_freezer = []\<rparr>)
        (10 := \<lparr>real_cred = Some 1000, task_freezer = [1]\<rparr>,
         11 := \<lparr>real_cred = Some 1001, task_freezer = [1]\<rparr>,
         12 := \<lparr>real_cred = Some 1000, task_freezer = [2, 1]\<rparr>,
         13 := \<lparr>real_cred = Some 1001, task_freezer = [3]\<rparr>),
     system_freezing_cnt = 0, levents = []\<rparr>"

definition ex_forked :: lstate where
  "ex_forked =
     (freezer_change_state [1] True ex_lstate)
       \<lparr>css_tasks := (css_tasks ex_lstate)([1] := [10, 11, 14]),
        all_threads := [10, 11, 12, 13, 14],
        ltasks := (ltasks ex_lstate)(14 := \<lparr>real_cred = Some 1000, task_freezer = [1]\<rparr>)\<rparr>"

subsection \<open>Notions used to state the properties of the legacy freezer\<close>

text \<open>
  \<open>tmp_uid_of lt ts u\<close> is the value of \<open>tmp_uid_val\<close> after the first loop of
  \<open>unfreeze_cgroup\<close> over the tasks \<open>ts\<close>, started at \<open>u\<close>: the uid of the last task that
  has credentials.
\<close>

definition tmp_uid_of :: "(task_id \<Rightarrow> cred_task) \<Rightarrow> task_id list \<Rightarrow> 32 word \<Rightarrow> 32 word" where
  "tmp_uid_of lt ts u =
     (case filter (\<lambda>t. real_cred (lt t) \<noteq> None) ts of [] \<Rightarrow> u
      | x # xs \<Rightarrow> the (real_cred (lt (last (x # xs)))))"

text \<open>
  An online freezer is freezing when one of the \<open>FREEZING\<close> flags is set; \<open>cnt_inv\<close> says
  that \<open>system_freezing_cnt\<close> is the number of such freezers.
\<close>

definition is_freezing :: "freezer \<Rightarrow> bool" where
  "is_freezing fr = (state fr AND CGROUP_FREEZER_ONLINE \<noteq> 0 \<and> state fr AND CGROUP_FREEZING \<noteq> 0)"

definition cnt_inv :: "lstate \<Rightarrow> bool" where
  "cnt_inv s = (system_freezing_cnt s =
                  int (length (filter (\<lambda>c. is_freezing (freezers s c)) (all_css s))))"

text \<open>What \<open>freezer_apply_state\<close> does to the \<open>state\<close> word of its freezer.\<close>

definition apply_state_word :: "bool \<Rightarrow> 32 word \<Rightarrow> 32 word \<Rightarrow> 32 word" where
  "apply_state_word fz st x =
     (if x AND CGROUP_FREEZER_ONLINE = 0 then x
      else if fz then x OR st
      else if (x AND NOT st) AND CGROUP_FREEZING = 0 then (x AND NOT st) AND NOT CGROUP_FROZEN
      else x AND NOT st)"

section \<open>Views of a group and of a task\<close>

text \<open>
  The fields that upward propagation never writes (\<open>cg_core\<close>), those that applying a freeze to
  one group never writes (\<open>cg_adm\<close>), and those that a whole walk of \<open>cgroup_freeze\<close> never
  writes (\<open>cg_static\<close>); \<open>task_adm\<close> is a task without its \<open>JOBCTL_TRAP_FREEZE\<close> bit.
\<close>

definition cg_core :: "cgroup \<Rightarrow> int \<times> int \<times> bool \<times> bool \<times> int \<times> int \<times> bool" where
  "cg_core c = (nr_descendants c, task_count c, is_dead c, freeze (freezer c),
                e_freeze (freezer c), nr_frozen_tasks (freezer c), CGRP_FREEZE \<in> flags c)"

definition cg_adm :: "cgroup \<Rightarrow> int \<times> int \<times> bool \<times> bool \<times> int \<times> int" where
  "cg_adm c = (nr_descendants c, task_count c, is_dead c, freeze (freezer c),
               e_freeze (freezer c), nr_frozen_tasks (freezer c))"

definition cg_static :: "cgroup \<Rightarrow> int \<times> int \<times> bool \<times> bool \<times> int" where
  "cg_static c = (nr_descendants c, task_count c, is_dead c, freeze (freezer c),
                  nr_frozen_tasks (freezer c))"

definition task_adm :: "task_struct \<Rightarrow> bool \<times> bool \<times> bool \<times> cgrp_id" where
  "task_adm t = (pf_kthread t, frozen t, has_sighand t, dfl_cgroup t)"


section \<open>Notions used to state the properties of the cgroup v2 freezer\<close>

text \<open>\<open>proper_ancestor x g\<close>: \<open>x\<close> is an ancestor of \<open>g\<close> other than \<open>g\<close> itself.\<close>

fun proper_ancestor :: "cgrp_id \<Rightarrow> cgrp_id \<Rightarrow> bool" where
  "proper_ancestor x [] = False"
| "proper_ancestor x (n # p) = is_descendant p x"

text \<open>The events by which a task is told to freeze or to thaw.\<close>

fun is_task_action :: "event \<Rightarrow> bool" where
  "is_task_action (Signal_wake_up t) = True"
| "is_task_action (Wake_up_process t) = True"
| "is_task_action e = False"

fun is_file_notify :: "event \<Rightarrow> bool" where
  "is_file_notify (File_notify g) = True"
| "is_file_notify e = False"

text \<open>
  A task \<open>cgroup_do_freeze\<close> acts on: not a kernel thread and not about to die. The action
  it receives is \<open>signal_wake_up\<close> for a freeze and \<open>wake_up_process\<close> for a thaw.
\<close>

definition freezable :: "kstate \<Rightarrow> task_id \<Rightarrow> bool" where
  "freezable s t = (\<not> pf_kthread (tasks s t) \<and> has_sighand (tasks s t))"

definition task_action :: "bool \<Rightarrow> task_id \<Rightarrow> event" where
  "task_action fz t = (if fz then Signal_wake_up t else Wake_up_process t)"

text \<open>
  The test of the loop of \<open>cgroup_freeze\<close> on the descendant \<open>d\<close>, read in the state before
  the descendant is visited: \<open>d\<close> is live and, after the increment (decrement), its effective
  freeze counter is not above 1 (not above 0), so that \<open>cgroup_do_freeze\<close> is called.
\<close>

definition step_acts :: "bool \<Rightarrow> kstate \<Rightarrow> cgrp_id \<Rightarrow> bool" where
  "step_acts fz s d =
     (\<not> is_dead (cgrps s d) \<and>
      (if fz then \<not> e_freeze (freezer (cgrps s d)) + 1 > 1
       else \<not> e_freeze (freezer (cgrps s d)) - 1 > 0))"

text \<open>
  The live groups a walk of \<open>cgroup_freeze\<close> from \<open>g\<close> visits, and the value of the effective
  freeze counter at which the walk acts on a group: 1 when freezing, 0 when thawing.
\<close>

definition live_descendants :: "cgrp_id \<Rightarrow> kstate \<Rightarrow> cgrp_id list" where
  "live_descendants g s =
     filter (\<lambda>d. \<not> is_dead (cgrps s d)) (css_for_each_descendant_pre g s)"

definition walk_target :: "bool \<Rightarrow> int" where
  "walk_target fz = (if fz then 1 else 0)"

text \<open>
  \<open>freeze_depth cs d\<close>: the number of groups among \<open>d\<close> and its ancestors whose
  \<open>freezer.freeze\<close> is set.
\<close>

fun freeze_depth :: "(cgrp_id \<Rightarrow> cgroup) \<Rightarrow> cgrp_id \<Rightarrow> int" where
  "freeze_depth cs [] = (if freeze (freezer (cs [])) then 1 else 0)"
| "freeze_depth cs (n # p) = (if freeze (freezer (cs (n # p))) then 1 else 0) + freeze_depth cs p"

text \<open>
  The effective freeze counter of every live, listed group is the number of freeze requests
  that apply to it, and no effective freeze counter is negative.
\<close>

definition depth_inv :: "kstate \<Rightarrow> bool" where
  "depth_inv s =
     (\<forall>d. 0 \<le> e_freeze (freezer (cgrps s d)) \<and>
          (d \<in> set (all_cgroups s) \<and> \<not> is_dead (cgrps s d) \<longrightarrow>
             e_freeze (freezer (cgrps s d)) = freeze_depth (cgrps s) d))"

text \<open>The frozen tasks of a group, and the tasks of a group that are not kernel threads.\<close>

definition frozen_tasks_of :: "kstate \<Rightarrow> cgrp_id \<Rightarrow> task_id list" where
  "frozen_tasks_of s g =
     filter (\<lambda>t. frozen (tasks s t) \<and> dfl_cgroup (tasks s t) = g) (all_tasks s)"

definition user_tasks_of :: "kstate \<Rightarrow> cgrp_id \<Rightarrow> task_id list" where
  "user_tasks_of s g =
     filter (\<lambda>t. \<not> pf_kthread (tasks s t) \<and> dfl_cgroup (tasks s t) = g) (all_tasks s)"

definition frozen_cnt_inv :: "kstate \<Rightarrow> bool" where
  "frozen_cnt_inv s =
     (\<forall>g. nr_frozen_tasks (freezer (cgrps s g)) = int (length (frozen_tasks_of s g)))"

definition kthread_inv :: "kstate \<Rightarrow> bool" where
  "kthread_inv s =
     (\<forall>t. pf_kthread (tasks s t) \<longrightarrow>
          \<not> frozen (tasks s t) \<and> \<not> trap_freeze (tasks s t) \<and>
          Signal_wake_up t \<notin> set (events s))"

definition consistent :: "kstate \<Rightarrow> bool" where
  "consistent s =
     (distinct (all_tasks s) \<and> distinct (all_cgroups s) \<and> frozen_cnt_inv s \<and> kthread_inv s \<and>
      depth_inv s \<and> Warn_on_once \<notin> set (events s))"

text \<open>
  The task count of a group is the number of its tasks that are not kernel threads. This is
  how the spec describes the count; the code that maintains it is not in the source file.
\<close>

definition task_cnt_inv :: "kstate \<Rightarrow> bool" where
  "task_cnt_inv s = (\<forall>g. task_count (cgrps s g) = int (length (user_tasks_of s g)))"

section \<open>The rounds of a walk and the revisit of a group\<close>

text \<open>The proper ancestors of a group, nearest first.\<close>

fun ancestors_of :: "cgrp_id \<Rightarrow> cgrp_id list" where
  "ancestors_of [] = []"
| "ancestors_of (n # p) = p # ancestors_of p"

text \<open>
  \<open>frozen_bit s x\<close> is \<open>test_bit(CGRP_FROZEN, &x->flags)\<close> and \<open>frozen_descendants s x\<close> is
  \<open>x->freezer.nr_frozen_descendants\<close>, in the state \<open>s\<close>; \<open>flipped t t' x\<close> tells that
  \<open>CGRP_FROZEN\<close> of \<open>x\<close> differs between \<open>t\<close> and \<open>t'\<close>.
\<close>

definition frozen_bit :: "kstate \<Rightarrow> cgrp_id \<Rightarrow> bool" where
  "frozen_bit s x = (CGRP_FROZEN \<in> flags (cgrps s x))"

definition frozen_descendants :: "kstate \<Rightarrow> cgrp_id \<Rightarrow> int" where
  "frozen_descendants s x = nr_frozen_descendants (freezer (cgrps s x))"

definition flipped :: "kstate \<Rightarrow> kstate \<Rightarrow> cgrp_id \<Rightarrow> bool" where
  "flipped t t' x = (frozen_bit t' x \<noteq> frozen_bit t x)"

text \<open>
  \<open>flips_between F d x\<close>: the number of groups with \<open>F\<close> among the proper ancestors of \<open>d\<close>
  that lie below \<open>x\<close>; \<open>flips_below F d x\<close> counts \<open>d\<close> as well. For an ancestor \<open>x\<close> of \<open>d\<close>
  and \<open>F\<close> the groups whose \<open>CGRP_FROZEN\<close> has changed, this is the number of descendants of
  \<open>x\<close> on the path from \<open>d\<close> that have become frozen, or have ceased to be.
\<close>

fun flips_between :: "(cgrp_id \<Rightarrow> bool) \<Rightarrow> cgrp_id \<Rightarrow> cgrp_id \<Rightarrow> int" where
  "flips_between F [] x = 0"
| "flips_between F (n # p) x =
     (if p = x then 0 else (if F p then 1 else 0) + flips_between F p x)"

definition flips_below :: "(cgrp_id \<Rightarrow> bool) \<Rightarrow> cgrp_id \<Rightarrow> cgrp_id \<Rightarrow> int" where
  "flips_below F d x = (if F d then 1 else 0) + flips_between F d x"

text \<open>
  \<open>bump_depth fz d t\<close>: the effective freeze counter of \<open>d\<close> is incremented (\<open>fz\<close>) or
  decremented (not \<open>fz\<close>), and nothing else is changed.
\<close>

definition bump_depth :: "bool \<Rightarrow> cgrp_id \<Rightarrow> kstate \<Rightarrow> kstate" where
  "bump_depth fz d t =
     upd_cgrp d (\<lambda>c. c\<lparr>freezer := (freezer c)
       \<lparr>e_freeze := e_freeze (freezer c) + (if fz then 1 else - 1)\<rparr>\<rparr>) t"

text \<open>
  \<open>revisited fz d t t'\<close>: between \<open>t\<close> and \<open>t'\<close> the state of \<open>d\<close> has been revisited, with
  \<open>CGRP_FREEZE\<close> of \<open>d\<close> being \<open>fz\<close>. \<open>CGRP_FROZEN\<close> of \<open>d\<close> is now \<open>fz\<close> together with the
  equality of its task counts. The number of frozen descendants of every proper ancestor \<open>x\<close>
  of \<open>d\<close> has gone up (\<open>d\<close> now frozen) or down (\<open>d\<close> now not frozen) by the number of groups
  below \<open>x\<close>, on the path from \<open>d\<close>, whose \<open>CGRP_FROZEN\<close> has changed. If \<open>CGRP_FROZEN\<close> of
  \<open>d\<close> has changed, an ancestor is frozen afterwards exactly if \<open>d\<close> is and the ancestor either
  was frozen or has \<open>CGRP_FREEZE\<close> set and all its descendants frozen; otherwise the
  ancestors are as before. Of every other group, and of \<open>d\<close> itself, the number of frozen
  descendants is unchanged, and \<open>CGRP_FROZEN\<close> of every other group is unchanged.
\<close>

definition revisited :: "bool \<Rightarrow> cgrp_id \<Rightarrow> kstate \<Rightarrow> kstate \<Rightarrow> bool" where
  "revisited fz d t t' =
     (frozen_bit t' d =
        (fz \<and> nr_frozen_tasks (freezer (cgrps t d)) = task_count (cgrps t d)) \<and>
      frozen_descendants t' d = frozen_descendants t d \<and>
      (\<forall>x. proper_ancestor x d \<longrightarrow>
         frozen_descendants t' x =
           frozen_descendants t x +
           (if frozen_bit t' d then 1 else - 1) * flips_below (flipped t t') d x \<and>
         frozen_bit t' x =
           (if flipped t t' d
            then frozen_bit t' d \<and>
                 (frozen_bit t x \<or>
                  (CGRP_FREEZE \<in> flags (cgrps t x) \<and>
                   frozen_descendants t' x = nr_descendants (cgrps t x)))
            else frozen_bit t x)) \<and>
      (\<forall>x. x \<noteq> d \<and> \<not> proper_ancestor x d \<longrightarrow>
         frozen_bit t' x = frozen_bit t x \<and> frozen_descendants t' x = frozen_descendants t x))"

definition untouched_counters :: "kstate \<Rightarrow> kstate \<Rightarrow> bool" where
  "untouched_counters t t' =
     (\<forall>x. frozen_bit t' x = frozen_bit t x \<and> frozen_descendants t' x = frozen_descendants t x)"

text \<open>
  \<open>round_acts fz d t t'\<close>: what a round of the loop of \<open>cgroup_freeze\<close> that acts on \<open>d\<close>
  makes of the state \<open>t\<close>. The effective freeze counter of \<open>d\<close> is incremented or
  decremented, \<open>CGRP_FREEZE\<close> of \<open>d\<close> becomes \<open>fz\<close>, every task of \<open>d\<close> that is not a kernel
  thread and not about to die gets \<open>JOBCTL_TRAP_FREEZE\<close> set to \<open>fz\<close> and its action, in the
  order of the task iterator. Then, if the number of descendants of \<open>d\<close> is the number of its
  frozen descendants, the state of \<open>d\<close> is revisited and \<open>cgroup_file_notify\<close> is called once
  for each group whose \<open>CGRP_FROZEN\<close> has changed, \<open>d\<close> first and then upwards; otherwise no
  \<open>CGRP_FROZEN\<close> and no number of frozen descendants changes and nobody is notified. No
  other field of a group or of a task changes, and no other call leaves the file.
\<close>

definition round_acts :: "bool \<Rightarrow> cgrp_id \<Rightarrow> kstate \<Rightarrow> kstate \<Rightarrow> bool" where
  "round_acts fz d t t' =
     (all_cgroups t' = all_cgroups t \<and> all_tasks t' = all_tasks t \<and>
      (\<forall>x. cg_static (cgrps t' x) = cg_static (cgrps t x) \<and>
           e_freeze (freezer (cgrps t' x)) =
             (if x = d then e_freeze (freezer (cgrps t d)) + (if fz then 1 else - 1)
              else e_freeze (freezer (cgrps t x))) \<and>
           (CGRP_FREEZE \<in> flags (cgrps t' x)) =
             (if x = d then fz else CGRP_FREEZE \<in> flags (cgrps t x))) \<and>
      (\<forall>x. tasks t' x =
             (if x \<in> set (css_task_iter d t) \<and> freezable t x
              then (tasks t x)\<lparr>trap_freeze := fz\<rparr> else tasks t x)) \<and>
      events t' =
        events t @ map (task_action fz) (filter (freezable t) (css_task_iter d t)) @
        (if nr_descendants (cgrps t d) = frozen_descendants t d
         then map File_notify (filter (flipped t t') (d # ancestors_of d)) else []) \<and>
      (if nr_descendants (cgrps t d) = frozen_descendants t d
       then revisited fz d t t' else untouched_counters t t'))"

text \<open>
  \<open>walk_prefix g fz s k\<close>: the state and the local \<open>applied\<close> of \<open>cgroup_freeze(g, fz)\<close>,
  called in \<open>s\<close> with a request that differs from the recorded one, after the first \<open>k\<close>
  rounds of its loop.
\<close>

definition walk_prefix :: "cgrp_id \<Rightarrow> bool \<Rightarrow> kstate \<Rightarrow> nat \<Rightarrow> kstate \<times> bool" where
  "walk_prefix g fz s k =
     fold (cgroup_freeze_step fz) (take k (css_for_each_descendant_pre g s))
       (upd_cgrp g (\<lambda>c. c\<lparr>freezer := (freezer c)\<lparr>freeze := fz\<rparr>\<rparr>) s, False)"

text \<open>
  \<open>walk_round g fz s k\<close>: what round \<open>k\<close> of the walk does with the descendant \<open>d\<close> it
  visits. A dead group is skipped. A live group still has the effective freeze counter it had
  before the walk; if the counter it gets is 1 (freezing) or 0 (thawing), the round acts on
  \<open>d\<close> and sets \<open>applied\<close>; if not, the round changes this counter and nothing else.
\<close>

definition walk_round :: "cgrp_id \<Rightarrow> bool \<Rightarrow> kstate \<Rightarrow> nat \<Rightarrow> bool" where
  "walk_round g fz s k =
     (let d = css_for_each_descendant_pre g s ! k;
          r = walk_prefix g fz s k;
          r' = walk_prefix g fz s (Suc k)
      in if is_dead (cgrps s d) then r' = r
         else e_freeze (freezer (cgrps (fst r) d)) = e_freeze (freezer (cgrps s d)) \<and>
              (if e_freeze (freezer (cgrps s d)) + (if fz then 1 else - 1) = walk_target fz
               then snd r' \<and> round_acts fz d (fst r) (fst r')
               else r' = (bump_depth fz d (fst r), snd r)))"

section \<open>The callers of the freezer\<close>

text \<open>
  Modelled from the spec: the code that maintains what \<open>__cgroup_task_count\<close> returns is not
  in the source file. According to the spec \<open>own_task_count\<close> is the number of live
  processes directly owned by the group, and exempt processes are never counted in it;
  \<open>count_task t g k\<close> adds \<open>k\<close> to the count of \<open>g\<close> on behalf of task \<open>t\<close>.
\<close>

definition count_task :: "task_id \<Rightarrow> cgrp_id \<Rightarrow> int \<Rightarrow> kstate \<Rightarrow> kstate" where
  "count_task t g k s =
     (if pf_kthread (tasks s t) then s
      else upd_cgrp g (\<lambda>c. c\<lparr>task_count := task_count c + k\<rparr>) s)"

text \<open>
  Modelled from the spec: \<open>css_set_move_task\<close> is not in the source file. The task changes
  its group, leaves the count of the source and joins the count of the destination; this
  happens before the hook \<open>cgroup_freezer_migrate_task\<close> runs.
\<close>

definition css_set_move_task :: "task_id \<Rightarrow> cgrp_id \<Rightarrow> cgrp_id \<Rightarrow> kstate \<Rightarrow> kstate" where
  "css_set_move_task t src dst s =
     count_task t dst 1 (count_task t src (- 1) (upd_task t (\<lambda>x. x\<lparr>dfl_cgroup := dst\<rparr>) s))"

text \<open>
  Modelled from the spec: the exit path of a task is not in the source file. A frozen task
  that dies leaves the task count of its group, the exit hook \<open>cgroup_freezer_frozen_exit\<close>
  is run, and the task is no longer listed.
\<close>

definition cgroup_exit :: "task_id \<Rightarrow> kstate \<Rightarrow> kstate" where
  "cgroup_exit t s =
     (let s1 = count_task t (dfl_cgroup (tasks s t)) (- 1) s;
          s2 = cgroup_freezer_frozen_exit t s1
      in s2\<lparr>all_tasks := remove1 t (all_tasks s2)\<rparr>)"

text \<open>
  Modelled from the spec: the callers of the freezer (the signal code, the migration and the
  exit path) are not in the source file. According to the spec a task reports that it has
  reached the frozen state only after it has been asked to freeze (\<open>JOBCTL_TRAP_FREEZE\<close>
  is set), and it leaves the frozen state or exits frozen only if it is frozen; only listed
  tasks act. \<open>apply_op\<close> is \<open>None\<close> for a call that is not matched in this sense, and
  \<open>run\<close> applies a sequence of calls.
\<close>

datatype op =
    Op_freeze cgrp_id bool
  | Op_enter_frozen task_id
  | Op_leave_frozen task_id bool
  | Op_migrate task_id cgrp_id
  | Op_frozen_exit task_id

fun apply_op :: "op \<Rightarrow> kstate \<Rightarrow> kstate option" where
  "apply_op (Op_freeze g fz) s = Some (cgroup_freeze g fz s)"
| "apply_op (Op_enter_frozen t) s =
     (if t \<in> set (all_tasks s) \<and> trap_freeze (tasks s t)
      then Some (cgroup_enter_frozen t s) else None)"
| "apply_op (Op_leave_frozen t always_leave) s =
     (if t \<in> set (all_tasks s) \<and> frozen (tasks s t)
      then Some (cgroup_leave_frozen always_leave t s) else None)"
| "apply_op (Op_migrate t dst) s =
     (if t \<in> set (all_tasks s)
      then Some (cgroup_freezer_migrate_task t (dfl_cgroup (tasks s t)) dst
                   (css_set_move_task t (dfl_cgroup (tasks s t)) dst s))
      else None)"
| "apply_op (Op_frozen_exit t) s =
     (if t \<in> set (all_tasks s) \<and> frozen (tasks s t)
      then Some (cgroup_exit t s) else None)"

fun run :: "op list \<Rightarrow> kstate \<Rightarrow> kstate option" where
  "run [] s = Some s"
| "run (x # xs) s = (case apply_op x s of None \<Rightarrow> None | Some s1 \<Rightarrow> run xs s1)"

section \<open>An example hierarchy\<close>

text \<open>
  The root, a group \<open>[1]\<close> with one task (task 1) and its child \<open>[2, 1]\<close> with one task
  (task 2); task 3 is a kernel thread in the root. Nothing is frozen.
\<close>

definition mk_cgroup :: "int \<Rightarrow> int \<Rightarrow> cgroup" where
  "mk_cgroup nd nt = \<lparr>flags = {}, nr_descendants = nd, task_count = nt, is_dead = False,
     freezer = \<lparr>freeze = False, e_freeze = 0, nr_frozen_descendants = 0, nr_frozen_tasks = 0\<rparr>\<rparr>"

definition mk_task :: "bool \<Rightarrow> cgrp_id \<Rightarrow> task_struct" where
  "mk_task k g = \<lparr>pf_kthread = k, frozen = False, trap_freeze = False, has_sighand = True,
     dfl_cgroup = g\<rparr>"

definition ex_state :: kstate where
  "ex_state = \<lparr>cgrps = (\<lambda>g. mk_cgroup 0 0)([] := mk_cgroup 2 0, [1] := mk_cgroup 1 1,
                         [2, 1] := mk_cgroup 0 1),
     tasks = (\<lambda>t. mk_task False [])(1 := mk_task False [1], 2 := mk_task False [2, 1],
                                      3 := mk_task True []),
     all_cgroups = [[], [1], [2, 1]], all_tasks = [1, 2, 3], events = []\<rparr>"

text \<open>
  \<open>ex_migrating\<close>: \<open>[1]\<close> has been frozen, task 1 has entered the frozen state, and the task
  is being moved from \<open>[1]\<close> to \<open>[2, 1]\<close>, which is under the same freeze request; the hook
  \<open>cgroup_freezer_migrate_task\<close> has not run yet.
\<close>

definition ex_migrating :: kstate where
  "ex_migrating =
     css_set_move_task 1 [1] [2, 1] (cgroup_enter_frozen 1 (cgroup_freeze [1] True ex_state))"

text \<open>
  \<open>ex_nested\<close>: \<open>[1]\<close> and then its child \<open>[2, 1]\<close> have been frozen, so that two freeze
  requests apply to \<open>[2, 1]\<close>.
\<close>

definition ex_nested :: kstate where
  "ex_nested = cgroup_freeze [2, 1] True (cgroup_freeze [1] True ex_state)"

text \<open>
  \<open>ex_ops\<close>: the root is frozen, task 1 enters the frozen state, the kernel thread 3 is moved
  into \<open>[1]\<close>, the frozen task 1 is moved into \<open>[2, 1]\<close>, the root is thawed and task 1
  leaves the frozen state.
\<close>

definition ex_ops :: "op list" where
  "ex_ops = [Op_freeze [] True, Op_enter_frozen 1, Op_migrate 3 [1], Op_migrate 1 [2, 1],
             Op_freeze [] False, Op_leave_frozen 1 False]"

text \<open>
  \<open>ex_empty_leaf\<close>: the example hierarchy without task 2, so that \<open>[2, 1]\<close> is an empty leaf.
\<close>

definition ex_empty_leaf :: kstate where
  "ex_empty_leaf = \<lparr>cgrps = (\<lambda>g. mk_cgroup 0 0)([] := mk_cgroup 2 0, [1] := mk_cgroup 1 1),
     tasks = (\<lambda>t. mk_task False [])(1 := mk_task False [1], 3 := mk_task True []),
     all_cgroups = [[], [1], [2, 1]], all_tasks = [1, 3], events = []\<rparr>"

text \<open>
  \<open>ex_unbalanced\<close>: the example hierarchy with a freeze request recorded for \<open>[1]\<close> that no
  effective freeze counter accounts for, as an unbalanced sequence of calls leaves it behind.
\<close>

definition ex_unbalanced :: kstate where
  "ex_unbalanced = upd_cgrp [1] (\<lambda>c. c\<lparr>freezer := (freezer c)\<lparr>freeze := True\<rparr>\<rparr>) ex_state"

section \<open>Frame properties\<close>

lemmas model_defs = ex_state_def mk_cgroup_def mk_task_def cgroup_freeze_def
  cgroup_enter_frozen_def cgroup_leave_frozen_def css_for_each_descendant_pre_def upd_cgrp_def
  cgroup_freeze_step_def cgroup_do_freeze_def css_task_iter_def do_freeze_task_def
  cgroup_freeze_task_def upd_task_def emit_def cgroup_update_frozen_def test_bit_flag_def
  set_bit_flag_def clear_bit_flag_def cgroup_inc_frozen_cnt_def cgroup_dec_frozen_cnt_def
  cgroup_file_notify_def WARN_ON_ONCE_def recalc_sigpending_def cgroup_freezer_migrate_task_def
  cgroup_freezer_frozen_exit_def css_set_move_task_def count_task_def Let_def


lemmas flag_defs = test_bit_flag_def set_bit_flag_def clear_bit_flag_def
lemmas prim_defs = upd_cgrp_def upd_task_def emit_def cgroup_file_notify_def WARN_ON_ONCE_def

lemma cg_core_flags_upd [simp]:
  "(CGRP_FREEZE \<in> fl) = (CGRP_FREEZE \<in> flags c) \<Longrightarrow> cg_core (c\<lparr>flags := fl\<rparr>) = cg_core c"
  by (simp add: cg_core_def)

lemma cg_core_freezer_upd [simp]:
  "freeze fz = freeze (freezer c) \<Longrightarrow> e_freeze fz = e_freeze (freezer c) \<Longrightarrow>
   nr_frozen_tasks fz = nr_frozen_tasks (freezer c) \<Longrightarrow>
   cg_core (c\<lparr>freezer := fz\<rparr>) = cg_core c"
  by (simp add: cg_core_def)

lemma frozen_bit_keeps_freeze [simp]:
  "(CGRP_FREEZE \<in> set_bit_flag CGRP_FROZEN fl) = (CGRP_FREEZE \<in> fl)"
  "(CGRP_FREEZE \<in> clear_bit_flag CGRP_FROZEN fl) = (CGRP_FREEZE \<in> fl)"
  by (simp_all add: flag_defs)

lemma upd_cgrp_sel [simp]:
  "cgrps (upd_cgrp g f s) x = (if x = g then f (cgrps s g) else cgrps s x)"
  "tasks (upd_cgrp g f s) = tasks s"
  "all_cgroups (upd_cgrp g f s) = all_cgroups s"
  "all_tasks (upd_cgrp g f s) = all_tasks s"
  "events (upd_cgrp g f s) = events s"
  by (simp_all add: upd_cgrp_def)

lemma upd_task_sel [simp]:
  "tasks (upd_task t f s) x = (if x = t then f (tasks s t) else tasks s x)"
  "cgrps (upd_task t f s) = cgrps s"
  "all_cgroups (upd_task t f s) = all_cgroups s"
  "all_tasks (upd_task t f s) = all_tasks s"
  "events (upd_task t f s) = events s"
  by (simp_all add: upd_task_def)

lemma emit_sel [simp]:
  "cgrps (emit e s) = cgrps s"
  "tasks (emit e s) = tasks s"
  "all_cgroups (emit e s) = all_cgroups s"
  "all_tasks (emit e s) = all_tasks s"
  "events (emit e s) = events s @ [e]"
  by (simp_all add: emit_def)

lemma file_notify_sel [simp]:
  "cgrps (cgroup_file_notify g s) = cgrps s"
  "tasks (cgroup_file_notify g s) = tasks s"
  "all_cgroups (cgroup_file_notify g s) = all_cgroups s"
  "all_tasks (cgroup_file_notify g s) = all_tasks s"
  "events (cgroup_file_notify g s) = events s @ [File_notify g]"
  by (simp_all add: cgroup_file_notify_def)

lemma warn_sel [simp]:
  "cgrps (WARN_ON_ONCE c s) = cgrps s"
  "tasks (WARN_ON_ONCE c s) = tasks s"
  "all_cgroups (WARN_ON_ONCE c s) = all_cgroups s"
  "all_tasks (WARN_ON_ONCE c s) = all_tasks s"
  "events (WARN_ON_ONCE c s) = (if c then events s @ [Warn_on_once] else events s)"
  by (simp_all add: WARN_ON_ONCE_def)

lemma propagate_frame:
  "tasks (cgroup_propagate_frozen g fr d s) = tasks s \<and>
   all_cgroups (cgroup_propagate_frozen g fr d s) = all_cgroups s \<and>
   all_tasks (cgroup_propagate_frozen g fr d s) = all_tasks s \<and>
   cg_core (cgrps (cgroup_propagate_frozen g fr d s) x) = cg_core (cgrps s x)"
  by (induction g fr d s rule: cgroup_propagate_frozen.induct)
     (auto simp: Let_def)

lemma update_frozen_frame:
  "tasks (cgroup_update_frozen g s) = tasks s \<and>
   all_cgroups (cgroup_update_frozen g s) = all_cgroups s \<and>
   all_tasks (cgroup_update_frozen g s) = all_tasks s \<and>
   cg_core (cgrps (cgroup_update_frozen g s) x) = cg_core (cgrps s x)"
  by (simp add: cgroup_update_frozen_def Let_def propagate_frame)


lemma cg_core_imp_adm: "cg_core c = cg_core c' \<Longrightarrow> cg_adm c = cg_adm c'"
  by (simp add: cg_core_def cg_adm_def)

lemma cg_adm_imp_static: "cg_adm c = cg_adm c' \<Longrightarrow> cg_static c = cg_static c'"
  by (simp add: cg_static_def cg_adm_def)

lemma cg_adm_flags_upd [simp]: "cg_adm (c\<lparr>flags := fl\<rparr>) = cg_adm c"
  by (simp add: cg_adm_def)

lemma task_adm_trap_upd [simp]: "task_adm (t\<lparr>trap_freeze := b\<rparr>) = task_adm t"
  by (simp add: task_adm_def)

lemma freeze_task_frame:
  "cgrps (cgroup_freeze_task t fz s) = cgrps s \<and>
   all_cgroups (cgroup_freeze_task t fz s) = all_cgroups s \<and>
   all_tasks (cgroup_freeze_task t fz s) = all_tasks s \<and>
   task_adm (tasks (cgroup_freeze_task t fz s) x) = task_adm (tasks s x)"
  by (simp add: cgroup_freeze_task_def)

lemma do_freeze_task_frame:
  "cgrps (do_freeze_task fz t s) = cgrps s \<and>
   all_cgroups (do_freeze_task fz t s) = all_cgroups s \<and>
   all_tasks (do_freeze_task fz t s) = all_tasks s \<and>
   task_adm (tasks (do_freeze_task fz t s) x) = task_adm (tasks s x)"
  by (simp add: do_freeze_task_def freeze_task_frame)

lemma fold_freeze_task_frame:
  "cgrps (fold (do_freeze_task fz) ts s) = cgrps s \<and>
   all_cgroups (fold (do_freeze_task fz) ts s) = all_cgroups s \<and>
   all_tasks (fold (do_freeze_task fz) ts s) = all_tasks s \<and>
   task_adm (tasks (fold (do_freeze_task fz) ts s) x) = task_adm (tasks s x)"
  by (induction ts arbitrary: s) (simp_all add: do_freeze_task_frame)

lemma do_freeze_frame:
  "all_cgroups (cgroup_do_freeze g fz s) = all_cgroups s \<and>
   all_tasks (cgroup_do_freeze g fz s) = all_tasks s \<and>
   task_adm (tasks (cgroup_do_freeze g fz s) t) = task_adm (tasks s t) \<and>
   cg_adm (cgrps (cgroup_do_freeze g fz s) x) = cg_adm (cgrps s x)"
  by (simp add: cgroup_do_freeze_def Let_def update_frozen_frame fold_freeze_task_frame
        cg_core_imp_adm [OF conjunct2 [OF conjunct2 [OF conjunct2 [OF update_frozen_frame]]]])

lemma cg_static_e_freeze_upd [simp]:
  "cg_static (c\<lparr>freezer := (freezer c)\<lparr>e_freeze := v\<rparr>\<rparr>) = cg_static c"
  by (simp add: cg_static_def)

lemma freeze_step_frame:
  "all_cgroups (fst (cgroup_freeze_step fz d sa)) = all_cgroups (fst sa) \<and>
   all_tasks (fst (cgroup_freeze_step fz d sa)) = all_tasks (fst sa) \<and>
   task_adm (tasks (fst (cgroup_freeze_step fz d sa)) t) = task_adm (tasks (fst sa) t) \<and>
   cg_static (cgrps (fst (cgroup_freeze_step fz d sa)) x) = cg_static (cgrps (fst sa) x)"
  by (simp add: cgroup_freeze_step_def Let_def do_freeze_frame
        cg_adm_imp_static [OF conjunct2 [OF conjunct2 [OF conjunct2 [OF do_freeze_frame]]]])

lemma fold_freeze_step_frame:
  "all_cgroups (fst (fold (cgroup_freeze_step fz) ds sa)) = all_cgroups (fst sa) \<and>
   all_tasks (fst (fold (cgroup_freeze_step fz) ds sa)) = all_tasks (fst sa) \<and>
   task_adm (tasks (fst (fold (cgroup_freeze_step fz) ds sa)) t) = task_adm (tasks (fst sa) t) \<and>
   cg_static (cgrps (fst (fold (cgroup_freeze_step fz) ds sa)) x) = cg_static (cgrps (fst sa) x)"
  by (induction ds arbitrary: sa) (simp_all add: freeze_step_frame)

lemma cgroup_freeze_sets_freeze:
  "freeze (freezer (cgrps (cgroup_freeze g fz s) g)) = fz"
proof -
  have "\<And>sa ds. freeze (freezer (cgrps (fst (fold (cgroup_freeze_step fz) ds sa)) g)) =
          freeze (freezer (cgrps (fst sa) g))"
    using fold_freeze_step_frame [of fz _ _ _ g] by (simp add: cg_static_def)
  then show ?thesis
    by (simp add: cgroup_freeze_def Let_def)
qed

section \<open>Upward propagation touches ancestors only\<close>

lemma is_descendant_length: "is_descendant d g \<Longrightarrow> length g \<le> length d"
  by (induction d) auto

lemma is_descendant_refl [simp]: "is_descendant g g"
  by (cases g) simp_all

lemma is_descendant_step: "is_descendant p x \<Longrightarrow> is_descendant (n # p) x"
  by simp

lemma not_proper_ancestor_self [simp]: "\<not> proper_ancestor g g"
proof (cases g)
  case Nil
  then show ?thesis by simp
next
  case (Cons n p)
  have "\<not> is_descendant p (n # p)"
    using is_descendant_length [of p "n # p"] by auto
  with Cons show ?thesis by simp
qed

lemma proper_ancestor_parent: "proper_ancestor x p \<Longrightarrow> is_descendant p x"
  by (cases p) simp_all

lemma propagate_untouched:
  "\<not> proper_ancestor x g \<Longrightarrow> cgrps (cgroup_propagate_frozen g fr d s) x = cgrps s x"
proof (induction g fr d s rule: cgroup_propagate_frozen.induct)
  case (1 fr desc s)
  then show ?case by simp
next
  case (2 n p fr desc s)
  from "2.prems" have np: "\<not> is_descendant p x" by simp
  then have xp: "x \<noteq> p" by auto
  from np have nanc: "\<not> proper_ancestor x p"
    using proper_ancestor_parent by blast
  show ?case
    using "2.IH" nanc xp by (auto simp add: Let_def)
qed

lemma propagate_events:
  "filter (\<lambda>e. \<not> is_file_notify e) (events (cgroup_propagate_frozen g fr d s)) =
   filter (\<lambda>e. \<not> is_file_notify e) (events s)"
  by (induction g fr d s rule: cgroup_propagate_frozen.induct) (auto simp add: Let_def)

lemma update_frozen_events:
  "filter (\<lambda>e. \<not> is_file_notify e) (events (cgroup_update_frozen g s)) =
   filter (\<lambda>e. \<not> is_file_notify e) (events s)"
  by (simp add: cgroup_update_frozen_def Let_def propagate_events)

lemma update_frozen_untouched:
  "x \<noteq> g \<Longrightarrow> \<not> proper_ancestor x g \<Longrightarrow> cgrps (cgroup_update_frozen g s) x = cgrps s x"
  by (simp add: cgroup_update_frozen_def Let_def propagate_untouched)

lemma update_frozen_self:
  "(CGRP_FROZEN \<in> flags (cgrps (cgroup_update_frozen g s) g)) =
     (CGRP_FREEZE \<in> flags (cgrps s g) \<and>
      nr_frozen_tasks (freezer (cgrps s g)) = task_count (cgrps s g))"
  by (auto simp add: cgroup_update_frozen_def Let_def propagate_untouched flag_defs)


lemma filter_weaken:
  assumes "filter Q xs = filter Q ys" and "\<And>e. P e \<Longrightarrow> Q e"
  shows "filter P xs = filter P ys"
proof -
  have "filter P zs = filter P (filter Q zs)" for zs :: "'a list"
    using assms(2) by (induction zs) auto
  from this [of xs] this [of ys] assms(1) show ?thesis by simp
qed

lemma update_frozen_task_actions:
  "filter is_task_action (events (cgroup_update_frozen g s)) = filter is_task_action (events s)"
proof (rule filter_weaken [OF update_frozen_events])
  fix e show "is_task_action e \<Longrightarrow> \<not> is_file_notify e" by (cases e) simp_all
qed

lemma cg_core_fields:
  assumes "cg_core c = cg_core c'"
  shows "nr_descendants c = nr_descendants c'" "task_count c = task_count c'"
    "is_dead c = is_dead c'" "freeze (freezer c) = freeze (freezer c')"
    "e_freeze (freezer c) = e_freeze (freezer c')"
    "nr_frozen_tasks (freezer c) = nr_frozen_tasks (freezer c')"
    "(CGRP_FREEZE \<in> flags c) = (CGRP_FREEZE \<in> flags c')"
  using assms by (simp_all add: cg_core_def)

lemmas update_frozen_fields =
  cg_core_fields [OF conjunct2 [OF conjunct2 [OF conjunct2 [OF update_frozen_frame]]]]

lemma update_frozen_tasks [simp]: "tasks (cgroup_update_frozen g s) = tasks s"
  by (simp add: update_frozen_frame)

lemma inc_dec_sel [simp]:
  "tasks (cgroup_inc_frozen_cnt g s) = tasks s"
  "tasks (cgroup_dec_frozen_cnt g s) = tasks s"
  "all_tasks (cgroup_inc_frozen_cnt g s) = all_tasks s"
  "all_tasks (cgroup_dec_frozen_cnt g s) = all_tasks s"
  "all_cgroups (cgroup_inc_frozen_cnt g s) = all_cgroups s"
  "all_cgroups (cgroup_dec_frozen_cnt g s) = all_cgroups s"
  "events (cgroup_inc_frozen_cnt g s) = events s"
  "cgrps (cgroup_inc_frozen_cnt g s) x =
     (if x = g then (cgrps s g)\<lparr>freezer := (freezer (cgrps s g))
        \<lparr>nr_frozen_tasks := nr_frozen_tasks (freezer (cgrps s g)) + 1\<rparr>\<rparr> else cgrps s x)"
  "cgrps (cgroup_dec_frozen_cnt g s) x =
     (if x = g then (cgrps s g)\<lparr>freezer := (freezer (cgrps s g))
        \<lparr>nr_frozen_tasks := nr_frozen_tasks (freezer (cgrps s g)) - 1\<rparr>\<rparr> else cgrps s x)"
  "events (cgroup_dec_frozen_cnt g s) =
     (if nr_frozen_tasks (freezer (cgrps s g)) - 1 < 0 then events s @ [Warn_on_once] else events s)"
  by (simp_all add: cgroup_inc_frozen_cnt_def cgroup_dec_frozen_cnt_def Let_def)

lemma freeze_task_sel [simp]:
  "cgrps (cgroup_freeze_task t fz s) = cgrps s"
  "all_tasks (cgroup_freeze_task t fz s) = all_tasks s"
  "all_cgroups (cgroup_freeze_task t fz s) = all_cgroups s"
  "tasks (cgroup_freeze_task t fz s) x =
     (if x = t \<and> has_sighand (tasks s t) then (tasks s t)\<lparr>trap_freeze := fz\<rparr> else tasks s x)"
  "events (cgroup_freeze_task t fz s) =
     (if has_sighand (tasks s t)
      then events s @ [if fz then Signal_wake_up t else Wake_up_process t] else events s)"
  by (simp_all add: cgroup_freeze_task_def)

section \<open>The effect of applying a freeze to a group and of the downward walk\<close>

lemma task_adm_fields:
  assumes "task_adm x = task_adm y"
  shows "pf_kthread x = pf_kthread y" "frozen x = frozen y" "has_sighand x = has_sighand y"
    "dfl_cgroup x = dfl_cgroup y"
  using assms by (simp_all add: task_adm_def)

lemma cg_adm_fields:
  assumes "cg_adm c = cg_adm c'"
  shows "nr_descendants c = nr_descendants c'" "task_count c = task_count c'"
    "is_dead c = is_dead c'" "freeze (freezer c) = freeze (freezer c')"
    "e_freeze (freezer c) = e_freeze (freezer c')"
    "nr_frozen_tasks (freezer c) = nr_frozen_tasks (freezer c')"
  using assms by (simp_all add: cg_adm_def)

lemma cg_static_fields:
  assumes "cg_static c = cg_static c'"
  shows "nr_descendants c = nr_descendants c'" "task_count c = task_count c'"
    "is_dead c = is_dead c'" "freeze (freezer c) = freeze (freezer c')"
    "nr_frozen_tasks (freezer c) = nr_frozen_tasks (freezer c')"
  using assms by (simp_all add: cg_static_def)

lemma do_freeze_task_sel [simp]:
  "cgrps (do_freeze_task fz t s) = cgrps s"
  "all_tasks (do_freeze_task fz t s) = all_tasks s"
  "all_cgroups (do_freeze_task fz t s) = all_cgroups s"
  "tasks (do_freeze_task fz t s) x =
     (if x = t \<and> freezable s t then (tasks s t)\<lparr>trap_freeze := fz\<rparr> else tasks s x)"
  "events (do_freeze_task fz t s) =
     (if freezable s t then events s @ [task_action fz t] else events s)"
  by (auto simp add: do_freeze_task_def freezable_def task_action_def)

lemma freezable_do_freeze_task [simp]: "freezable (do_freeze_task fz t s) = freezable s"
  by (rule ext) (simp add: freezable_def)

lemma fold_do_freeze_task_sel:
  "cgrps (fold (do_freeze_task fz) ts s) = cgrps s"
  "all_tasks (fold (do_freeze_task fz) ts s) = all_tasks s"
  "all_cgroups (fold (do_freeze_task fz) ts s) = all_cgroups s"
  by (simp_all add: fold_freeze_task_frame)

lemma fold_do_freeze_task_tasks:
  "tasks (fold (do_freeze_task fz) ts s) x =
     (if x \<in> set ts \<and> freezable s x then (tasks s x)\<lparr>trap_freeze := fz\<rparr> else tasks s x)"
  by (induction ts arbitrary: s) (auto simp add: freezable_def)

lemma fold_do_freeze_task_events:
  "events (fold (do_freeze_task fz) ts s) =
     events s @ map (task_action fz) (filter (freezable s) ts)"
  by (induction ts arbitrary: s) simp_all

lemma is_task_action_task_action [simp]: "is_task_action (task_action fz t)"
  by (simp add: task_action_def)

lemma freezable_upd_cgrp [simp]: "freezable (upd_cgrp g f s) = freezable s"
  by (rule ext) (simp add: freezable_def)

lemma freezable_warn [simp]: "freezable (WARN_ON_ONCE c s) = freezable s"
  by (rule ext) (simp add: freezable_def)

lemma css_task_iter_upd_cgrp [simp]: "css_task_iter g (upd_cgrp x f s) = css_task_iter g s"
  by (simp add: css_task_iter_def)

lemma css_task_iter_warn [simp]: "css_task_iter g (WARN_ON_ONCE c s) = css_task_iter g s"
  by (simp add: css_task_iter_def)

lemma do_freeze_flag:
  "(CGRP_FREEZE \<in> flags (cgrps (cgroup_do_freeze g fz s) x)) =
     (if x = g then fz else CGRP_FREEZE \<in> flags (cgrps s x))"
  by (simp add: cgroup_do_freeze_def Let_def update_frozen_fields fold_do_freeze_task_sel flag_defs)

lemma do_freeze_tasks:
  "tasks (cgroup_do_freeze g fz s) x =
     (if x \<in> set (css_task_iter g s) \<and> freezable s x then (tasks s x)\<lparr>trap_freeze := fz\<rparr>
      else tasks s x)"
  by (simp add: cgroup_do_freeze_def Let_def fold_do_freeze_task_tasks)

lemma do_freeze_task_actions:
  "filter is_task_action (events (cgroup_do_freeze g fz s)) =
     filter is_task_action (events s) @ map (task_action fz) (filter (freezable s) (css_task_iter g s))"
  by (simp add: cgroup_do_freeze_def Let_def update_frozen_task_actions fold_do_freeze_task_events
        filter_map comp_def)


lemma not_file_notify_task_action [simp]: "\<not> is_file_notify (task_action fz t)"
  by (simp add: task_action_def)

lemma do_freeze_events:
  "filter (\<lambda>e. \<not> is_file_notify e) (events (cgroup_do_freeze g fz s)) =
     filter (\<lambda>e. \<not> is_file_notify e) (events s) @
     map (task_action fz) (filter (freezable s) (css_task_iter g s))"
  by (simp add: cgroup_do_freeze_def Let_def update_frozen_events fold_do_freeze_task_events
        filter_map comp_def)

lemma warn_mem_filter:
  "(Warn_on_once \<in> set xs) = (Warn_on_once \<in> set (filter (\<lambda>e. \<not> is_file_notify e) xs))"
  by simp

lemma warn_not_task_action [simp]: "Warn_on_once \<noteq> task_action fz t"
  by (simp add: task_action_def)

lemma do_freeze_warn:
  "(Warn_on_once \<in> set (events (cgroup_do_freeze g fz s))) = (Warn_on_once \<in> set (events s))"
  by (subst warn_mem_filter, subst do_freeze_events) auto

lemmas do_freeze_fields =
  cg_adm_fields [OF conjunct2 [OF conjunct2 [OF conjunct2 [OF do_freeze_frame]]]]

lemma do_freeze_lists [simp]:
  "all_tasks (cgroup_do_freeze g fz s) = all_tasks s"
  "all_cgroups (cgroup_do_freeze g fz s) = all_cgroups s"
  by (simp_all add: do_freeze_frame)

text \<open>The effect of one round of the loop of \<open>cgroup_freeze\<close>.\<close>

lemma step_e_freeze:
  "e_freeze (freezer (cgrps (fst (cgroup_freeze_step fz d sa)) x)) =
     (if x = d \<and> \<not> is_dead (cgrps (fst sa) d)
      then e_freeze (freezer (cgrps (fst sa) d)) + (if fz then 1 else - 1)
      else e_freeze (freezer (cgrps (fst sa) x)))"
  by (simp add: cgroup_freeze_step_def Let_def do_freeze_fields)

lemma step_flag:
  "(CGRP_FREEZE \<in> flags (cgrps (fst (cgroup_freeze_step fz d sa)) x)) =
     (if x = d \<and> step_acts fz (fst sa) d then fz else CGRP_FREEZE \<in> flags (cgrps (fst sa) x))"
  by (simp add: cgroup_freeze_step_def Let_def do_freeze_flag step_acts_def)

lemma step_tasks:
  "tasks (fst (cgroup_freeze_step fz d sa)) x =
     (if step_acts fz (fst sa) d \<and> x \<in> set (css_task_iter d (fst sa)) \<and> freezable (fst sa) x
      then (tasks (fst sa) x)\<lparr>trap_freeze := fz\<rparr> else tasks (fst sa) x)"
  by (simp add: cgroup_freeze_step_def Let_def do_freeze_tasks step_acts_def)

lemma step_task_actions:
  "filter is_task_action (events (fst (cgroup_freeze_step fz d sa))) =
     filter is_task_action (events (fst sa)) @
     (if step_acts fz (fst sa) d
      then map (task_action fz) (filter (freezable (fst sa)) (css_task_iter d (fst sa))) else [])"
  by (simp add: cgroup_freeze_step_def Let_def do_freeze_task_actions step_acts_def)

lemma step_warn:
  "(Warn_on_once \<in> set (events (fst (cgroup_freeze_step fz d sa)))) =
     (Warn_on_once \<in> set (events (fst sa)) \<or>
      (\<not> is_dead (cgrps (fst sa) d) \<and> \<not> fz \<and> e_freeze (freezer (cgrps (fst sa) d)) - 1 < 0))"
  by (auto simp add: cgroup_freeze_step_def Let_def do_freeze_warn)

lemmas step_fields =
  cg_static_fields [OF conjunct2 [OF conjunct2 [OF conjunct2 [OF freeze_step_frame]]]]

lemmas step_task_fields =
  task_adm_fields [OF conjunct1 [OF conjunct2 [OF conjunct2 [OF freeze_step_frame]]]]

lemma step_lists [simp]:
  "all_tasks (fst (cgroup_freeze_step fz d sa)) = all_tasks (fst sa)"
  "all_cgroups (fst (cgroup_freeze_step fz d sa)) = all_cgroups (fst sa)"
  by (simp_all add: freeze_step_frame)

lemma step_freezable [simp]: "freezable (fst (cgroup_freeze_step fz d sa)) = freezable (fst sa)"
  by (rule ext) (simp add: freezable_def step_task_fields)

lemma step_css_task_iter [simp]:
  "css_task_iter g (fst (cgroup_freeze_step fz d sa)) = css_task_iter g (fst sa)"
  by (simp add: css_task_iter_def step_task_fields)

lemma step_acts_other:
  "x \<noteq> d \<Longrightarrow> step_acts fz (fst (cgroup_freeze_step fz d sa)) x = step_acts fz (fst sa) x"
  by (simp add: step_acts_def step_e_freeze step_fields)


text \<open>The effect of the whole loop over a list of distinct descendants.\<close>

lemma fold_step_lists [simp]:
  "all_tasks (fst (fold (cgroup_freeze_step fz) ds sa)) = all_tasks (fst sa)"
  "all_cgroups (fst (fold (cgroup_freeze_step fz) ds sa)) = all_cgroups (fst sa)"
  by (simp_all add: fold_freeze_step_frame)

lemmas fold_step_fields =
  cg_static_fields [OF conjunct2 [OF conjunct2 [OF conjunct2 [OF fold_freeze_step_frame]]]]

lemmas fold_step_task_fields =
  task_adm_fields [OF conjunct1 [OF conjunct2 [OF conjunct2 [OF fold_freeze_step_frame]]]]

lemma fold_step_e_freeze:
  "distinct ds \<Longrightarrow>
   e_freeze (freezer (cgrps (fst (fold (cgroup_freeze_step fz) ds sa)) x)) =
     (if x \<in> set ds \<and> \<not> is_dead (cgrps (fst sa) x)
      then e_freeze (freezer (cgrps (fst sa) x)) + (if fz then 1 else - 1)
      else e_freeze (freezer (cgrps (fst sa) x)))"
proof (induction ds arbitrary: sa)
  case Nil
  then show ?case by simp
next
  case (Cons d ds)
  then have IH: "e_freeze (freezer (cgrps (fst (fold (cgroup_freeze_step fz) ds
                    (cgroup_freeze_step fz d sa))) x)) =
     (if x \<in> set ds \<and> \<not> is_dead (cgrps (fst (cgroup_freeze_step fz d sa)) x)
      then e_freeze (freezer (cgrps (fst (cgroup_freeze_step fz d sa)) x)) + (if fz then 1 else - 1)
      else e_freeze (freezer (cgrps (fst (cgroup_freeze_step fz d sa)) x)))"
    by simp
  from Cons.prems have "d \<notin> set ds" by simp
  then show ?case
    by (auto simp add: IH step_e_freeze step_fields)
qed

lemma step_acts_notin:
  "d \<notin> set ds \<Longrightarrow> x \<in> set ds \<Longrightarrow>
   step_acts fz (fst (cgroup_freeze_step fz d sa)) x = step_acts fz (fst sa) x"
  by (rule step_acts_other) auto

lemma filter_step_acts_other:
  "d \<notin> set ds \<Longrightarrow>
   filter (step_acts fz (fst (cgroup_freeze_step fz d sa))) ds = filter (step_acts fz (fst sa)) ds"
  by (rule filter_cong) (simp_all add: step_acts_notin)

lemma fold_step_flag:
  "distinct ds \<Longrightarrow>
   (CGRP_FREEZE \<in> flags (cgrps (fst (fold (cgroup_freeze_step fz) ds sa)) x)) =
     (if x \<in> set ds \<and> step_acts fz (fst sa) x then fz
      else CGRP_FREEZE \<in> flags (cgrps (fst sa) x))"
proof (induction ds arbitrary: sa)
  case Nil
  then show ?case by simp
next
  case (Cons d ds)
  then have IH: "(CGRP_FREEZE \<in> flags (cgrps (fst (fold (cgroup_freeze_step fz) ds
                    (cgroup_freeze_step fz d sa))) x)) =
     (if x \<in> set ds \<and> step_acts fz (fst (cgroup_freeze_step fz d sa)) x then fz
      else CGRP_FREEZE \<in> flags (cgrps (fst (cgroup_freeze_step fz d sa)) x))"
    by simp
  from Cons.prems have nd: "d \<notin> set ds" by simp
  show ?case
  proof (cases "x \<in> set ds")
    case True
    with nd have "x \<noteq> d" by auto
    with True nd show ?thesis
      by (simp add: IH step_flag step_acts_notin)
  next
    case False
    then show ?thesis
      by (auto simp add: IH step_flag)
  qed
qed

lemma fold_step_task_actions:
  "distinct ds \<Longrightarrow>
   filter is_task_action (events (fst (fold (cgroup_freeze_step fz) ds sa))) =
     filter is_task_action (events (fst sa)) @
     concat (map (\<lambda>d. map (task_action fz) (filter (freezable (fst sa)) (css_task_iter d (fst sa))))
              (filter (step_acts fz (fst sa)) ds))"
proof (induction ds arbitrary: sa)
  case Nil
  then show ?case by simp
next
  case (Cons d ds)
  then have IH: "filter is_task_action (events (fst (fold (cgroup_freeze_step fz) ds
                    (cgroup_freeze_step fz d sa)))) =
     filter is_task_action (events (fst (cgroup_freeze_step fz d sa))) @
     concat (map (\<lambda>d. map (task_action fz) (filter (freezable (fst sa)) (css_task_iter d (fst sa))))
              (filter (step_acts fz (fst (cgroup_freeze_step fz d sa))) ds))"
    by simp
  from Cons.prems have "d \<notin> set ds" by simp
  then show ?case
    by (simp add: IH step_task_actions filter_step_acts_other)
qed

lemma fold_step_tasks:
  "distinct ds \<Longrightarrow>
   tasks (fst (fold (cgroup_freeze_step fz) ds sa)) x =
     (if dfl_cgroup (tasks (fst sa) x) \<in> set ds \<and>
         step_acts fz (fst sa) (dfl_cgroup (tasks (fst sa) x)) \<and>
         x \<in> set (all_tasks (fst sa)) \<and> freezable (fst sa) x
      then (tasks (fst sa) x)\<lparr>trap_freeze := fz\<rparr> else tasks (fst sa) x)"
proof (induction ds arbitrary: sa)
  case Nil
  then show ?case by simp
next
  case (Cons d ds)
  let ?s1 = "fst (cgroup_freeze_step fz d sa)"
  from Cons have IH: "tasks (fst (fold (cgroup_freeze_step fz) ds (cgroup_freeze_step fz d sa))) x =
     (if dfl_cgroup (tasks ?s1 x) \<in> set ds \<and> step_acts fz ?s1 (dfl_cgroup (tasks ?s1 x)) \<and>
         x \<in> set (all_tasks ?s1) \<and> freezable ?s1 x
      then (tasks ?s1 x)\<lparr>trap_freeze := fz\<rparr> else tasks ?s1 x)"
    by simp
  from Cons.prems have nd: "d \<notin> set ds" by simp
  have dfl: "dfl_cgroup (tasks ?s1 x) = dfl_cgroup (tasks (fst sa) x)"
    by (simp add: step_task_fields)
  show ?case
  proof (cases "dfl_cgroup (tasks (fst sa) x) = d")
    case True
    with nd show ?thesis
      by (simp add: IH dfl step_tasks css_task_iter_def)
  next
    case False
    then have "step_acts fz ?s1 (dfl_cgroup (tasks (fst sa) x)) =
               step_acts fz (fst sa) (dfl_cgroup (tasks (fst sa) x))"
      by (rule step_acts_other)
    with False nd show ?thesis
      by (simp add: IH dfl step_tasks css_task_iter_def)
  qed
qed

lemma fold_step_warn:
  "distinct ds \<Longrightarrow>
   (Warn_on_once \<in> set (events (fst (fold (cgroup_freeze_step fz) ds sa)))) =
     (Warn_on_once \<in> set (events (fst sa)) \<or>
      (\<exists>d \<in> set ds. \<not> is_dead (cgrps (fst sa) d) \<and> \<not> fz \<and>
                       e_freeze (freezer (cgrps (fst sa) d)) - 1 < 0))"
proof (induction ds arbitrary: sa)
  case Nil
  then show ?case by simp
next
  case (Cons d ds)
  let ?s1 = "fst (cgroup_freeze_step fz d sa)"
  from Cons have IH: "(Warn_on_once \<in> set (events (fst (fold (cgroup_freeze_step fz) ds
                         (cgroup_freeze_step fz d sa))))) =
     (Warn_on_once \<in> set (events ?s1) \<or>
      (\<exists>x \<in> set ds. \<not> is_dead (cgrps ?s1 x) \<and> \<not> fz \<and> e_freeze (freezer (cgrps ?s1 x)) - 1 < 0))"
    by simp
  from Cons.prems have nd: "d \<notin> set ds" by simp
  then have "(\<exists>x \<in> set ds. \<not> is_dead (cgrps ?s1 x) \<and> \<not> fz \<and> e_freeze (freezer (cgrps ?s1 x)) - 1 < 0) =
     (\<exists>x \<in> set ds. \<not> is_dead (cgrps (fst sa) x) \<and> \<not> fz \<and>
                     e_freeze (freezer (cgrps (fst sa) x)) - 1 < 0)"
    by (intro bex_cong refl) (auto simp add: step_e_freeze step_fields)
  then show ?case
    by (auto simp add: IH step_warn)
qed


text \<open>The number of freeze requests that apply to a group.\<close>

lemma freeze_depth_nonneg: "0 \<le> freeze_depth cs d"
  by (induction d) simp_all

lemma freeze_depth_descendant:
  "is_descendant d g \<Longrightarrow> freeze (freezer (cs g)) \<Longrightarrow> 1 \<le> freeze_depth cs d"
proof (induction d)
  case Nil
  then show ?case by simp
next
  case (Cons n p)
  show ?case
  proof (cases "g = n # p")
    case True
    with Cons.prems freeze_depth_nonneg [of cs p] show ?thesis by simp
  next
    case False
    with Cons have "1 \<le> freeze_depth cs p" by simp
    then show ?thesis by simp
  qed
qed

lemma freeze_depth_cong:
  "(\<And>x. freeze (freezer (cs' x)) = freeze (freezer (cs x))) \<Longrightarrow>
   freeze_depth cs' d = freeze_depth cs d"
  by (induction d) simp_all

lemma freeze_depth_toggle:
  assumes "freeze (freezer (cs g)) \<noteq> fz"
    and "\<And>x. freeze (freezer (cs' x)) = (if x = g then fz else freeze (freezer (cs x)))"
  shows "freeze_depth cs' d =
           freeze_depth cs d + (if is_descendant d g then (if fz then 1 else - 1) else 0)"
proof (induction d)
  case Nil
  from assms show ?case by auto
next
  case (Cons n p)
  have ng: "\<not> is_descendant p (n # p)"
    using is_descendant_length [of p "n # p"] by auto
  show ?case
  proof (cases "g = n # p")
    case True
    with ng assms Cons show ?thesis by auto
  next
    case False
    with assms(2) Cons show ?thesis by auto
  qed
qed

lemma step_acts_depth:
  assumes "depth_inv s" and "freeze (freezer (cgrps s g)) \<noteq> fz"
    and "d \<in> set (all_cgroups s)" and "is_descendant d g"
  shows "step_acts fz (upd_cgrp g (\<lambda>c. c\<lparr>freezer := (freezer c)\<lparr>freeze := fz\<rparr>\<rparr>) s) d =
           (\<not> is_dead (cgrps s d) \<and>
            e_freeze (freezer (cgrps s d)) + (if fz then 1 else - 1) = (if fz then 1 else 0))"
proof (cases "is_dead (cgrps s d)")
  case True
  then show ?thesis by (auto simp add: step_acts_def)
next
  case False
  from assms(1) have nonneg: "0 \<le> e_freeze (freezer (cgrps s d))"
    by (simp add: depth_inv_def)
  from assms(1,3) False have eq: "e_freeze (freezer (cgrps s d)) = freeze_depth (cgrps s) d"
    by (simp add: depth_inv_def)
  show ?thesis
  proof (cases fz)
    case True
    with False nonneg show ?thesis by (auto simp add: step_acts_def)
  next
    case fzF: False
    with assms(2) have "freeze (freezer (cgrps s g))" by simp
    with assms(4) have "1 \<le> freeze_depth (cgrps s) d"
      by (rule freeze_depth_descendant)
    with eq False fzF show ?thesis by (auto simp add: step_acts_def)
  qed
qed


lemma freezable_freeze_upd [simp]: "freezable (s\<lparr>cgrps := cs\<rparr>) = freezable s"
  by (rule ext) (simp add: freezable_def)

lemma cgroup_freeze_effect:
  assumes "freeze (freezer (cgrps s g)) \<noteq> fz" and "distinct (all_cgroups s)" and "depth_inv s"
  shows
   "(\<forall>d. e_freeze (freezer (cgrps (cgroup_freeze g fz s) d)) =
          (if d \<in> set (live_descendants g s)
           then e_freeze (freezer (cgrps s d)) + (if fz then 1 else - 1)
           else e_freeze (freezer (cgrps s d)))) \<and>
    filter is_task_action (events (cgroup_freeze g fz s)) =
      filter is_task_action (events s) @
      concat (map (\<lambda>d. map (task_action fz) (filter (freezable s) (css_task_iter d s)))
               (filter (\<lambda>d. e_freeze (freezer (cgrps (cgroup_freeze g fz s) d)) = walk_target fz)
                  (live_descendants g s))) \<and>
    (\<forall>d. (CGRP_FREEZE \<in> flags (cgrps (cgroup_freeze g fz s) d)) =
          (if d \<in> set (live_descendants g s) \<and>
              e_freeze (freezer (cgrps (cgroup_freeze g fz s) d)) = walk_target fz
           then fz else CGRP_FREEZE \<in> flags (cgrps s d))) \<and>
    (\<forall>t. tasks (cgroup_freeze g fz s) t =
          (if t \<in> set (all_tasks s) \<and> freezable s t \<and>
              dfl_cgroup (tasks s t) \<in> set (live_descendants g s) \<and>
              e_freeze (freezer (cgrps (cgroup_freeze g fz s) (dfl_cgroup (tasks s t)))) =
                walk_target fz
           then (tasks s t)\<lparr>trap_freeze := fz\<rparr> else tasks s t))"
proof -
  let ?s1 = "upd_cgrp g (\<lambda>c. c\<lparr>freezer := (freezer c)\<lparr>freeze := fz\<rparr>\<rparr>) s"
  let ?ds = "css_for_each_descendant_pre g s"
  let ?r = "fold (cgroup_freeze_step fz) ?ds (?s1, False)"
  let ?S = "cgroup_freeze g fz s"
  have ds1: "css_for_each_descendant_pre g ?s1 = ?ds"
    by (simp add: css_for_each_descendant_pre_def)
  have dist: "distinct ?ds"
    using assms(2) by (simp add: css_for_each_descendant_pre_def)
  have cg: "cgrps ?S = cgrps (fst ?r)"
    using assms(1) by (simp add: cgroup_freeze_def Let_def ds1)
  have tk: "tasks ?S = tasks (fst ?r)"
    using assms(1) by (simp add: cgroup_freeze_def Let_def ds1)
  have ev: "filter is_task_action (events ?S) = filter is_task_action (events (fst ?r))"
    using assms(1) by (simp add: cgroup_freeze_def Let_def ds1)
  have live: "d \<in> set (live_descendants g s) \<longleftrightarrow> d \<in> set ?ds \<and> \<not> is_dead (cgrps s d)" for d
    by (auto simp add: live_descendants_def)
  have A: "e_freeze (freezer (cgrps ?S d)) =
          (if d \<in> set (live_descendants g s)
           then e_freeze (freezer (cgrps s d)) + (if fz then 1 else - 1)
           else e_freeze (freezer (cgrps s d)))" for d
    unfolding cg live by (simp add: fold_step_e_freeze [OF dist])
  have acts: "step_acts fz ?s1 d =
      (\<not> is_dead (cgrps s d) \<and> e_freeze (freezer (cgrps ?S d)) = walk_target fz)"
    if "d \<in> set ?ds" for d
  proof -
    from that have "d \<in> set (all_cgroups s)" "is_descendant d g"
      by (simp_all add: css_for_each_descendant_pre_def)
    from step_acts_depth [OF assms(3,1) this] that show ?thesis
      by (auto simp add: A live walk_target_def)
  qed
  have filt: "filter (step_acts fz ?s1) ?ds =
      filter (\<lambda>d. e_freeze (freezer (cgrps ?S d)) = walk_target fz) (live_descendants g s)"
    unfolding live_descendants_def filter_filter
    by (rule filter_cong) (auto simp add: acts)
  have B: "filter is_task_action (events ?S) =
      filter is_task_action (events s) @
      concat (map (\<lambda>d. map (task_action fz) (filter (freezable s) (css_task_iter d s)))
               (filter (\<lambda>d. e_freeze (freezer (cgrps ?S d)) = walk_target fz)
                  (live_descendants g s)))"
    unfolding ev by (simp add: fold_step_task_actions [OF dist] filt [symmetric])
  have C: "(CGRP_FREEZE \<in> flags (cgrps ?S d)) =
          (if d \<in> set (live_descendants g s) \<and> e_freeze (freezer (cgrps ?S d)) = walk_target fz
           then fz else CGRP_FREEZE \<in> flags (cgrps s d))" for d
  proof (cases "d \<in> set ?ds")
    case True
    then show ?thesis
      unfolding cg by (simp add: fold_step_flag [OF dist] acts [unfolded cg] live)
  next
    case False
    then show ?thesis
      unfolding cg by (simp add: fold_step_flag [OF dist] live)
  qed
  have D: "tasks ?S t =
          (if t \<in> set (all_tasks s) \<and> freezable s t \<and>
              dfl_cgroup (tasks s t) \<in> set (live_descendants g s) \<and>
              e_freeze (freezer (cgrps ?S (dfl_cgroup (tasks s t)))) = walk_target fz
           then (tasks s t)\<lparr>trap_freeze := fz\<rparr> else tasks s t)" for t
  proof (cases "dfl_cgroup (tasks s t) \<in> set ?ds")
    case True
    then show ?thesis
      unfolding tk cg by (auto simp add: fold_step_tasks [OF dist] acts [unfolded cg] live)
  next
    case False
    then show ?thesis
      unfolding tk cg by (simp add: fold_step_tasks [OF dist] live)
  qed
  from A B C D show ?thesis by blast
qed

section \<open>Properties of the legacy freezer\<close>

lemmas legacy_defs = ex_lstate_def mk_freezer_def freezer_change_state_def
  change_state_step_def css_descendants_pre_def freezer_apply_state_def upd_freezer_def
  freeze_cgroup_def freeze_cgroup_task_def unfreeze_cgroup_def unfreeze_iter_def
  thaw_same_uid_def thaw_task_def parent_freezer_def unfreezer_fork_def task_css_is_root_def
  CGROUP_FREEZER_ONLINE_def CGROUP_FREEZING_SELF_def CGROUP_FREEZING_PARENT_def
  CGROUP_FROZEN_def CGROUP_FREEZING_def Let_def

lemma thaw_task_sel [simp]:
  "freezers (thaw_task t s) = freezers s"
  "all_css (thaw_task t s) = all_css s"
  "css_tasks (thaw_task t s) = css_tasks s"
  "all_threads (thaw_task t s) = all_threads s"
  "ltasks (thaw_task t s) = ltasks s"
  "system_freezing_cnt (thaw_task t s) = system_freezing_cnt s"
  "levents (thaw_task t s) = levents s @ [Thaw_task t]"
  by (simp_all add: thaw_task_def)

lemma freeze_cgroup_task_sel [simp]:
  "freezers (freeze_cgroup_task t s) = freezers s"
  "all_css (freeze_cgroup_task t s) = all_css s"
  "css_tasks (freeze_cgroup_task t s) = css_tasks s"
  "all_threads (freeze_cgroup_task t s) = all_threads s"
  "ltasks (freeze_cgroup_task t s) = ltasks s"
  "system_freezing_cnt (freeze_cgroup_task t s) = system_freezing_cnt s"
  "levents (freeze_cgroup_task t s) = levents s @ [Freeze_cgroup_task t]"
  by (simp_all add: freeze_cgroup_task_def)

lemma fold_freeze_cgroup_task:
  "fold freeze_cgroup_task ts s = s\<lparr>levents := levents s @ map Freeze_cgroup_task ts\<rparr>"
  by (induction ts arbitrary: s) (simp_all add: freeze_cgroup_task_def)

lemma freeze_cgroup_eq:
  "freeze_cgroup f s = s\<lparr>levents := levents s @ map Freeze_cgroup_task (css_tasks s f)\<rparr>"
  by (simp add: freeze_cgroup_def fold_freeze_cgroup_task)

lemma unfreeze_iter_pair:
  "unfreeze_iter t (u, s) =
     ((case real_cred (ltasks s t) of Some v \<Rightarrow> v | None \<Rightarrow> u), thaw_task t s)"
  by (cases "real_cred (ltasks s t)") (simp_all add: unfreeze_iter_def Let_def)

lemma thaw_same_uid_eq:
  "thaw_same_uid u p s = (if real_cred (ltasks s p) = Some u then thaw_task p s else s)"
  by (auto simp add: thaw_same_uid_def)

lemma tmp_uid_of_Cons:
  "tmp_uid_of lt (t # ts) u =
     tmp_uid_of lt ts (case real_cred (lt t) of Some v \<Rightarrow> v | None \<Rightarrow> u)"
  by (cases "real_cred (lt t)") (auto simp add: tmp_uid_of_def split: list.splits)

lemma fold_unfreeze_iter:
  "fold unfreeze_iter ts (u, s) =
     (tmp_uid_of (ltasks s) ts u, s\<lparr>levents := levents s @ map Thaw_task ts\<rparr>)"
proof (induction ts arbitrary: u s)
  case Nil
  then show ?case by (simp add: tmp_uid_of_def)
next
  case (Cons t ts)
  show ?case
    by (simp add: unfreeze_iter_pair Cons.IH tmp_uid_of_Cons thaw_task_def)
qed

lemma fold_thaw_same_uid:
  "fold (thaw_same_uid u) ps s =
     s\<lparr>levents := levents s @ map Thaw_task (filter (\<lambda>p. real_cred (ltasks s p) = Some u) ps)\<rparr>"
proof (induction ps arbitrary: s)
  case Nil
  then show ?case by simp
next
  case (Cons p ps)
  show ?case
  proof (cases "real_cred (ltasks s p) = Some u")
    case True
    then have "thaw_same_uid u p s = thaw_task p s"
      by (simp add: thaw_same_uid_eq)
    then have "fold (thaw_same_uid u) (p # ps) s = fold (thaw_same_uid u) ps (thaw_task p s)"
      by simp
    with True show ?thesis
      by (simp only: Cons.IH) (simp add: thaw_task_def)
  next
    case False
    then have "thaw_same_uid u p s = s"
      by (simp add: thaw_same_uid_eq)
    then have "fold (thaw_same_uid u) (p # ps) s = fold (thaw_same_uid u) ps s"
      by simp
    with False show ?thesis
      by (simp only: Cons.IH) simp
  qed
qed

lemma unfreeze_cgroup_eq:
  "unfreeze_cgroup f s =
     s\<lparr>levents := levents s @ map Thaw_task (css_tasks s f) @
        map Thaw_task (filter (\<lambda>p. real_cred (ltasks s p) =
                                    Some (tmp_uid_of (ltasks s) (css_tasks s f) (- 1)))
          (all_threads s))\<rparr>"
  by (simp add: unfreeze_cgroup_def fold_unfreeze_iter fold_thaw_same_uid Let_def)

lemma flag_values:
  "CGROUP_FREEZER_ONLINE = 1" "CGROUP_FREEZING_SELF = 2" "CGROUP_FREEZING_PARENT = 4"
  "CGROUP_FROZEN = 8" "CGROUP_FREEZING = 6"
  by (simp_all add: CGROUP_FREEZER_ONLINE_def CGROUP_FREEZING_SELF_def
        CGROUP_FREEZING_PARENT_def CGROUP_FROZEN_def CGROUP_FREEZING_def)

lemma upd_freezer_sel [simp]:
  "freezers (upd_freezer f u s) x = (if x = f then u (freezers s f) else freezers s x)"
  "all_css (upd_freezer f u s) = all_css s"
  "css_tasks (upd_freezer f u s) = css_tasks s"
  "all_threads (upd_freezer f u s) = all_threads s"
  "ltasks (upd_freezer f u s) = ltasks s"
  "system_freezing_cnt (upd_freezer f u s) = system_freezing_cnt s"
  "levents (upd_freezer f u s) = levents s"
  by (simp_all add: upd_freezer_def)

lemma apply_state_frame:
  "all_css (freezer_apply_state f fz st s) = all_css s \<and>
   css_tasks (freezer_apply_state f fz st s) = css_tasks s \<and>
   all_threads (freezer_apply_state f fz st s) = all_threads s \<and>
   ltasks (freezer_apply_state f fz st s) = ltasks s"
  by (simp add: freezer_apply_state_def Let_def freeze_cgroup_eq unfreeze_cgroup_eq)

lemma apply_state_freezers:
  "freezers (freezer_apply_state f fz st s) x =
     (if x = f then (freezers s f)\<lparr>state := apply_state_word fz st (state (freezers s f))\<rparr>
      else freezers s x)"
  by (simp add: freezer_apply_state_def Let_def freeze_cgroup_eq unfreeze_cgroup_eq
        apply_state_word_def)

lemma apply_state_word_freezing:
  assumes "st = CGROUP_FREEZING_SELF \<or> st = CGROUP_FREEZING_PARENT"
  shows "(apply_state_word fz st x AND CGROUP_FREEZER_ONLINE = 0) = (x AND CGROUP_FREEZER_ONLINE = 0)"
    and "x AND CGROUP_FREEZER_ONLINE \<noteq> 0 \<Longrightarrow> fz \<Longrightarrow> apply_state_word fz st x AND CGROUP_FREEZING \<noteq> 0"
    and "x AND CGROUP_FREEZER_ONLINE \<noteq> 0 \<Longrightarrow> \<not> fz \<Longrightarrow>
         (apply_state_word fz st x AND CGROUP_FREEZING = 0) = ((x AND NOT st) AND CGROUP_FREEZING = 0)"
  using assms
  by (auto simp add: apply_state_word_def flag_values bit.conj_disj_distrib2 or_eq_0_iff and.assoc)

lemma and_not_keeps_zero:
  fixes x :: "32 word"
  assumes "x AND c = 0"
  shows "(x AND NOT st) AND c = 0"
proof -
  have "(x AND NOT st) AND c = (x AND c) AND NOT st"
    by (simp add: and.assoc and.commute and.left_commute)
  with assms show ?thesis by simp
qed

lemma apply_state_cnt:
  assumes "st = CGROUP_FREEZING_SELF \<or> st = CGROUP_FREEZING_PARENT"
  shows "system_freezing_cnt (freezer_apply_state f fz st s) =
           system_freezing_cnt s
           + (if \<not> is_freezing (freezers s f) \<and> is_freezing (freezers (freezer_apply_state f fz st s) f)
              then 1 else 0)
           - (if is_freezing (freezers s f) \<and> \<not> is_freezing (freezers (freezer_apply_state f fz st s) f)
              then 1 else 0)"
proof (cases "state (freezers s f) AND CGROUP_FREEZER_ONLINE = 0")
  case True
  then show ?thesis by (simp add: freezer_apply_state_def)
next
  case False
  note on = this
  show ?thesis
  proof (cases fz)
    case True
    with on apply_state_word_freezing(1,2) [OF assms, where fz = fz and x = "state (freezers s f)"] show ?thesis
      by (simp add: apply_state_freezers is_freezing_def)
         (simp add: freezer_apply_state_def Let_def freeze_cgroup_eq)
  next
    case False
    with on apply_state_word_freezing(1,3) [OF assms, where fz = fz and x = "state (freezers s f)"] show ?thesis
      by (simp add: apply_state_freezers is_freezing_def)
         (auto simp add: freezer_apply_state_def Let_def unfreeze_cgroup_eq and_not_keeps_zero)
  qed
qed

lemma length_filter_change_one:
  assumes "distinct xs" and "t \<in> set xs" and "\<And>x. x \<noteq> t \<Longrightarrow> Q x = P x"
  shows "int (length (filter Q xs)) =
           int (length (filter P xs)) - (if P t then 1 else 0) + (if Q t then 1 else 0)"
  using assms(1,2)
proof (induction xs)
  case Nil
  then show ?case by simp
next
  case (Cons x xs)
  show ?case
  proof (cases "x = t")
    case True
    with Cons.prems have "t \<notin> set xs" by simp
    have "Q y = P y" if "y \<in> set xs" for y
    proof -
      from that \<open>t \<notin> set xs\<close> have "y \<noteq> t" by auto
      then show ?thesis by (rule assms(3))
    qed
    then have "filter Q xs = filter P xs"
      by (intro filter_cong) simp_all
    with True show ?thesis by simp
  next
    case False
    with Cons.prems have "distinct xs" "t \<in> set xs" by auto
    from Cons.IH [OF this] False assms(3) [of x] show ?thesis
      by (auto split: if_splits)
  qed
qed

lemma change_state_step_frame:
  "all_css (change_state_step r fz pos s) = all_css s \<and>
   css_tasks (change_state_step r fz pos s) = css_tasks s \<and>
   all_threads (change_state_step r fz pos s) = all_threads s \<and>
   ltasks (change_state_step r fz pos s) = ltasks s"
  by (simp add: change_state_step_def apply_state_frame split: option.splits)

lemma apply_state_cnt_inv:
  assumes "st = CGROUP_FREEZING_SELF \<or> st = CGROUP_FREEZING_PARENT"
    and "distinct (all_css s)" and "pos \<in> set (all_css s)" and "cnt_inv s"
  shows "cnt_inv (freezer_apply_state pos fz st s)"
proof -
  let ?s' = "freezer_apply_state pos fz st s"
  have "int (length (filter (\<lambda>c. is_freezing (freezers ?s' c)) (all_css s))) =
        int (length (filter (\<lambda>c. is_freezing (freezers s c)) (all_css s)))
        - (if is_freezing (freezers s pos) then 1 else 0)
        + (if is_freezing (freezers ?s' pos) then 1 else 0)"
    by (rule length_filter_change_one [OF assms(2,3)]) (simp add: apply_state_freezers)
  with assms(4) apply_state_cnt [OF assms(1), of pos fz s] show ?thesis
    by (simp add: cnt_inv_def apply_state_frame)
qed

lemma change_state_step_cnt_inv:
  assumes "distinct (all_css s)" and "pos \<in> set (all_css s)" and "cnt_inv s"
  shows "cnt_inv (change_state_step r fz pos s)"
proof (cases "pos = r")
  case True
  with assms show ?thesis
    by (simp add: change_state_step_def apply_state_cnt_inv)
next
  case False
  with assms show ?thesis
    by (simp add: change_state_step_def apply_state_cnt_inv split: option.splits)
qed

lemma fold_change_state_frame:
  "all_css (fold (change_state_step r fz) ds s) = all_css s \<and>
   css_tasks (fold (change_state_step r fz) ds s) = css_tasks s \<and>
   all_threads (fold (change_state_step r fz) ds s) = all_threads s \<and>
   ltasks (fold (change_state_step r fz) ds s) = ltasks s"
  by (induction ds arbitrary: s) (simp_all add: change_state_step_frame)

lemma fold_change_state_cnt_inv:
  assumes "distinct (all_css s)" and "set ds \<subseteq> set (all_css s)" and "cnt_inv s"
  shows "cnt_inv (fold (change_state_step r fz) ds s)"
  using assms
proof (induction ds arbitrary: s)
  case Nil
  then show ?case by simp
next
  case (Cons d ds)
  have "cnt_inv (change_state_step r fz d s)"
    using Cons.prems by (simp add: change_state_step_cnt_inv)
  with Cons.prems show ?case
    by (simp add: Cons.IH change_state_step_frame)
qed

lemma freezer_change_state_cnt_inv:
  assumes "distinct (all_css s)" and "cnt_inv s"
  shows "cnt_inv (freezer_change_state f fz s)"
proof -
  let ?s1 = "upd_freezer f (\<lambda>x. x\<lparr>oem_freeze_flag := (if fz then 1 else 0)\<rparr>) s"
  have "(\<lambda>c. is_freezing (freezers ?s1 c)) = (\<lambda>c. is_freezing (freezers s c))"
    by (rule ext) (simp add: is_freezing_def)
  with assms(2) have "cnt_inv ?s1"
    by (simp add: cnt_inv_def)
  with assms(1) show ?thesis
    unfolding freezer_change_state_def Let_def
    by (intro fold_change_state_cnt_inv) (simp_all add: css_descendants_pre_def)
qed

lemma apply_state_levents:
  "levents (freezer_apply_state f fz st s) =
     levents s @
     (if state (freezers s f) AND CGROUP_FREEZER_ONLINE = 0 then []
      else if fz then map Freeze_cgroup_task (css_tasks s f)
      else if (state (freezers s f) AND NOT st) AND CGROUP_FREEZING = 0
      then levents (unfreeze_cgroup f (s\<lparr>levents := []\<rparr>))
      else [])"
  by (simp add: freezer_apply_state_def Let_def freeze_cgroup_eq unfreeze_cgroup_eq)

lemma step_freezers_other:
  "pos \<noteq> x \<Longrightarrow> freezers (change_state_step r fz pos s) x = freezers s x"
  by (auto simp add: change_state_step_def apply_state_freezers split: option.splits)

lemma step_freezers_root:
  "freezers (change_state_step r fz r s) r =
     (if css_online (freezers s r)
      then (freezers s r)\<lparr>state := apply_state_word fz CGROUP_FREEZING_SELF (state (freezers s r))\<rparr>
      else freezers s r)"
  by (simp add: change_state_step_def apply_state_freezers)

lemma step_levents_mono:
  "set (levents s) \<subseteq> set (levents (change_state_step r fz pos s))"
  by (simp add: change_state_step_def apply_state_levents split: option.splits)

lemma fold_step_levents_mono:
  "set (levents s) \<subseteq> set (levents (fold (change_state_step r fz) ds s))"
proof (induction ds arbitrary: s)
  case Nil
  then show ?case by simp
next
  case (Cons d ds)
  from step_levents_mono [of s r fz d] Cons.IH [of "change_state_step r fz d s"]
  show ?case by simp
qed

lemma fold_step_root_absent:
  "r \<notin> set ds \<Longrightarrow> freezers (fold (change_state_step r fz) ds s) r = freezers s r"
  by (induction ds arbitrary: s) (auto simp add: step_freezers_other)

lemma fold_step_root:
  assumes "distinct ds" and "r \<in> set ds"
  shows "freezers (fold (change_state_step r fz) ds s) r = freezers (change_state_step r fz r s) r"
  using assms
proof (induction ds arbitrary: s)
  case Nil
  then show ?case by simp
next
  case (Cons d ds)
  show ?case
  proof (cases "d = r")
    case True
    with Cons.prems show ?thesis by (simp add: fold_step_root_absent)
  next
    case False
    with Cons.prems have "freezers (fold (change_state_step r fz) ds (change_state_step r fz d s)) r =
        freezers (change_state_step r fz r (change_state_step r fz d s)) r"
      by (intro Cons.IH) auto
    with False show ?thesis
      by (simp add: step_freezers_root step_freezers_other)
  qed
qed

lemma step_root_thaws:
  assumes "css_online (freezers s r)"
    and "state (freezers s r) AND CGROUP_FREEZER_ONLINE \<noteq> 0"
    and "state (freezers s r) AND CGROUP_FREEZING_PARENT = 0"
    and "x \<in> set (css_tasks s r)"
  shows "Thaw_task x \<in> set (levents (change_state_step r False r s))"
proof -
  have "(state (freezers s r) AND NOT CGROUP_FREEZING_SELF) AND CGROUP_FREEZING =
        state (freezers s r) AND CGROUP_FREEZING_PARENT"
    by (simp add: flag_values and.assoc)
  with assms show ?thesis
    by (simp add: change_state_step_def apply_state_levents unfreeze_cgroup_eq)
qed

lemma fold_step_root_thaws:
  assumes "distinct ds" and "r \<in> set ds"
    and "css_online (freezers s r)"
    and "state (freezers s r) AND CGROUP_FREEZER_ONLINE \<noteq> 0"
    and "state (freezers s r) AND CGROUP_FREEZING_PARENT = 0"
    and "x \<in> set (css_tasks s r)"
  shows "Thaw_task x \<in> set (levents (fold (change_state_step r False) ds s))"
  using assms
proof (induction ds arbitrary: s)
  case Nil
  then show ?case by simp
next
  case (Cons d ds)
  show ?case
  proof (cases "d = r")
    case True
    from Cons.prems(3-6) have "Thaw_task x \<in> set (levents (change_state_step r False r s))"
      by (rule step_root_thaws)
    with True fold_step_levents_mono [of "change_state_step r False r s" r False ds]
    show ?thesis by auto
  next
    case False
    with Cons.prems show ?thesis
      by (simp add: Cons.IH step_freezers_other change_state_step_frame)
  qed
qed

lemma step_no_freeze_event:
  assumes "\<And>g. t \<in> set (css_tasks s g) \<Longrightarrow> g = r"
    and "Freeze_cgroup_task t \<in> set (levents (change_state_step r False pos s))"
  shows "Freeze_cgroup_task t \<in> set (levents s)"
proof (cases "pos = r")
  case True
  with assms(2) show ?thesis
    by (auto simp add: change_state_step_def apply_state_levents unfreeze_cgroup_eq
          split: if_splits)
next
  case False
  with assms(1) [of pos] have "t \<notin> set (css_tasks s pos)" by auto
  with False assms(2) show ?thesis
    by (auto simp add: change_state_step_def apply_state_levents unfreeze_cgroup_eq
          split: if_splits option.splits)
qed

lemma fold_step_no_freeze_event:
  assumes "\<And>g. t \<in> set (css_tasks s g) \<Longrightarrow> g = r"
    and "Freeze_cgroup_task t \<in> set (levents (fold (change_state_step r False) ds s))"
  shows "Freeze_cgroup_task t \<in> set (levents s)"
  using assms
proof (induction ds arbitrary: s)
  case Nil
  then show ?case by simp
next
  case (Cons d ds)
  have own: "g = r" if "t \<in> set (css_tasks (change_state_step r False d s) g)" for g
    using that Cons.prems(1) [of g] by (simp only: change_state_step_frame)
  have "Freeze_cgroup_task t \<in> set (levents (fold (change_state_step r False) ds
          (change_state_step r False d s)))"
    using Cons.prems(2) by simp
  with own have "Freeze_cgroup_task t \<in> set (levents (change_state_step r False d s))"
    by (rule Cons.IH)
  with Cons.prems(1) show ?case
    by (rule step_no_freeze_event)
qed

section \<open>Invariants of the cgroup v2 freezer under matched calls\<close>

lemma mem_not_file_notify:
  "\<not> is_file_notify e \<Longrightarrow> (e \<in> set xs) = (e \<in> set (filter (\<lambda>e. \<not> is_file_notify e) xs))"
  by simp

lemma update_frozen_mem:
  assumes "\<not> is_file_notify e"
  shows "(e \<in> set (events (cgroup_update_frozen g s))) = (e \<in> set (events s))"
  by (subst mem_not_file_notify [OF assms], subst update_frozen_events) (simp add: assms)

lemma update_frozen_lists [simp]:
  "all_tasks (cgroup_update_frozen g s) = all_tasks s"
  "all_cgroups (cgroup_update_frozen g s) = all_cgroups s"
  by (simp_all add: update_frozen_frame)

lemma depth_inv_cong:
  assumes "depth_inv s" and "all_cgroups s' = all_cgroups s"
    and "\<And>x. e_freeze (freezer (cgrps s' x)) = e_freeze (freezer (cgrps s x))"
    and "\<And>x. freeze (freezer (cgrps s' x)) = freeze (freezer (cgrps s x))"
    and "\<And>x. is_dead (cgrps s' x) = is_dead (cgrps s x)"
  shows "depth_inv s'"
proof -
  have "freeze_depth (cgrps s') d = freeze_depth (cgrps s) d" for d
    by (rule freeze_depth_cong) (rule assms(4))
  with assms show ?thesis by (simp add: depth_inv_def)
qed

lemma frozen_tasks_of_upd_cgrp [simp]: "frozen_tasks_of (upd_cgrp g f s) = frozen_tasks_of s"
  by (rule ext) (simp add: frozen_tasks_of_def)

lemma frozen_tasks_of_update_frozen [simp]:
  "frozen_tasks_of (cgroup_update_frozen g s) = frozen_tasks_of s"
  by (rule ext) (simp add: frozen_tasks_of_def)

lemma frozen_tasks_of_inc [simp]:
  "frozen_tasks_of (cgroup_inc_frozen_cnt g s) = frozen_tasks_of s"
  "frozen_tasks_of (cgroup_dec_frozen_cnt g s) = frozen_tasks_of s"
  by (rule ext, simp add: frozen_tasks_of_def)+

lemma frozen_tasks_set_frozen:
  assumes "distinct (all_tasks s)" and "t \<in> set (all_tasks s)"
  shows "int (length (frozen_tasks_of (upd_task t (\<lambda>x. x\<lparr>frozen := b\<rparr>) s) g)) =
         int (length (frozen_tasks_of s g))
         - (if frozen (tasks s t) \<and> dfl_cgroup (tasks s t) = g then 1 else 0)
         + (if b \<and> dfl_cgroup (tasks s t) = g then 1 else 0)"
  unfolding frozen_tasks_of_def
  using length_filter_change_one [OF assms,
      of "\<lambda>x. frozen (tasks (upd_task t (\<lambda>x. x\<lparr>frozen := b\<rparr>) s) x) \<and>
              dfl_cgroup (tasks (upd_task t (\<lambda>x. x\<lparr>frozen := b\<rparr>) s) x) = g"
         "\<lambda>x. frozen (tasks s x) \<and> dfl_cgroup (tasks s x) = g"]
  by simp

lemma enter_frozen_consistent:
  assumes "consistent s" and "t \<in> set (all_tasks s)" and "trap_freeze (tasks s t)"
  shows "consistent (cgroup_enter_frozen t s)"
proof (cases "frozen (tasks s t)")
  case True
  with assms(1) show ?thesis by (simp add: cgroup_enter_frozen_def)
next
  case False
  let ?g = "dfl_cgroup (tasks s t)"
  let ?s1 = "upd_task t (\<lambda>x. x\<lparr>frozen := True\<rparr>) s"
  let ?s' = "cgroup_update_frozen ?g (cgroup_inc_frozen_cnt ?g ?s1)"
  from False have eq: "cgroup_enter_frozen t s = ?s'"
    by (simp add: cgroup_enter_frozen_def Let_def)
  from assms(1) have dt: "distinct (all_tasks s)" and dc: "distinct (all_cgroups s)"
    and fc: "frozen_cnt_inv s" and kt: "kthread_inv s" and dp: "depth_inv s"
    and nw: "Warn_on_once \<notin> set (events s)"
    by (simp_all add: consistent_def)
  from kt assms(3) have nk: "\<not> pf_kthread (tasks s t)"
    by (auto simp add: kthread_inv_def)
  have 1: "frozen_cnt_inv ?s'"
    using fc False frozen_tasks_set_frozen [OF dt assms(2), of True]
    by (simp add: frozen_cnt_inv_def update_frozen_fields)
  have 2: "kthread_inv ?s'"
    using kt nk by (auto simp add: kthread_inv_def update_frozen_mem)
  have 3: "depth_inv ?s'"
    using dp by (rule depth_inv_cong) (simp_all add: update_frozen_fields)
  have 4: "Warn_on_once \<notin> set (events ?s')"
    using nw by (simp add: update_frozen_mem)
  from dt dc 1 2 3 4 show ?thesis
    unfolding eq by (simp add: consistent_def)
qed


lemma frozen_task_counted:
  assumes "frozen_cnt_inv s" and "t \<in> set (all_tasks s)" and "frozen (tasks s t)"
  shows "1 \<le> nr_frozen_tasks (freezer (cgrps s (dfl_cgroup (tasks s t))))"
proof -
  from assms(2,3) have "t \<in> set (frozen_tasks_of s (dfl_cgroup (tasks s t)))"
    by (simp add: frozen_tasks_of_def)
  then have "frozen_tasks_of s (dfl_cgroup (tasks s t)) \<noteq> []" by auto
  then have "1 \<le> int (length (frozen_tasks_of s (dfl_cgroup (tasks s t))))"
    by (cases "frozen_tasks_of s (dfl_cgroup (tasks s t))") simp_all
  with assms(1) show ?thesis by (simp add: frozen_cnt_inv_def)
qed

lemma leave_frozen_consistent:
  assumes "consistent s" and "t \<in> set (all_tasks s)" and "frozen (tasks s t)"
  shows "consistent (cgroup_leave_frozen al t s)"
proof -
  let ?g = "dfl_cgroup (tasks s t)"
  from assms(1) have dt: "distinct (all_tasks s)" and dc: "distinct (all_cgroups s)"
    and fc: "frozen_cnt_inv s" and kt: "kthread_inv s" and dp: "depth_inv s"
    and nw: "Warn_on_once \<notin> set (events s)"
    by (simp_all add: consistent_def)
  from frozen_task_counted [OF fc assms(2,3)]
  have pos: "1 \<le> nr_frozen_tasks (freezer (cgrps s ?g))" .
  show ?thesis
  proof (cases "al \<or> \<not> test_bit_flag CGRP_FREEZE (flags (cgrps s ?g))")
    case False
    with assms(3) have eq: "cgroup_leave_frozen al t s = recalc_sigpending t s"
      by (simp add: cgroup_leave_frozen_def Let_def)
    have "depth_inv (recalc_sigpending t s)"
      using dp by (rule depth_inv_cong) (simp_all add: recalc_sigpending_def)
    with dt dc fc kt nw show ?thesis
      unfolding eq
      by (simp add: consistent_def recalc_sigpending_def frozen_cnt_inv_def kthread_inv_def
            frozen_tasks_of_def)
  next
    case True
    let ?s2 = "cgroup_update_frozen ?g (cgroup_dec_frozen_cnt ?g s)"
    let ?s' = "upd_task t (\<lambda>x. x\<lparr>frozen := False\<rparr>) (WARN_ON_ONCE (\<not> frozen (tasks ?s2 t)) ?s2)"
    from True have eq: "cgroup_leave_frozen al t s = ?s'"
      by (simp add: cgroup_leave_frozen_def Let_def)
    have w: "WARN_ON_ONCE (\<not> frozen (tasks ?s2 t)) ?s2 = ?s2"
      using assms(3) by (simp add: WARN_ON_ONCE_def)
    have fto: "int (length (frozen_tasks_of ?s' x)) =
        int (length (frozen_tasks_of s x)) - (if ?g = x then 1 else 0)" for x
      unfolding w using frozen_tasks_set_frozen [of ?s2 t False x] dt assms(2,3) by simp
    have 1: "frozen_cnt_inv ?s'"
      using fc unfolding frozen_cnt_inv_def fto by (auto simp add: w update_frozen_fields)
    have 2: "kthread_inv ?s'"
      using kt pos assms(3) by (auto simp add: kthread_inv_def update_frozen_mem)
    have 3: "depth_inv ?s'"
      using dp by (rule depth_inv_cong) (simp_all add: w update_frozen_fields)
    have 4: "Warn_on_once \<notin> set (events ?s')"
      using nw pos assms(3) by (simp add: update_frozen_mem)
    from dt dc 1 2 3 4 show ?thesis
      unfolding eq by (simp add: consistent_def w)
  qed
qed


lemma count_task_sel [simp]:
  "tasks (count_task t g k s) = tasks s"
  "all_tasks (count_task t g k s) = all_tasks s"
  "all_cgroups (count_task t g k s) = all_cgroups s"
  "events (count_task t g k s) = events s"
  "cgrps (count_task t g k s) x =
     (if x = g \<and> \<not> pf_kthread (tasks s t) then (cgrps s g)\<lparr>task_count := task_count (cgrps s g) + k\<rparr>
      else cgrps s x)"
  by (simp_all add: count_task_def)

lemma css_set_move_task_sel [simp]:
  "tasks (css_set_move_task t src dst s) y =
     (if y = t then (tasks s t)\<lparr>dfl_cgroup := dst\<rparr> else tasks s y)"
  "all_tasks (css_set_move_task t src dst s) = all_tasks s"
  "all_cgroups (css_set_move_task t src dst s) = all_cgroups s"
  "events (css_set_move_task t src dst s) = events s"
  "e_freeze (freezer (cgrps (css_set_move_task t src dst s) x)) = e_freeze (freezer (cgrps s x))"
  "freeze (freezer (cgrps (css_set_move_task t src dst s) x)) = freeze (freezer (cgrps s x))"
  "nr_frozen_tasks (freezer (cgrps (css_set_move_task t src dst s) x)) =
     nr_frozen_tasks (freezer (cgrps s x))"
  "is_dead (cgrps (css_set_move_task t src dst s) x) = is_dead (cgrps s x)"
  "flags (cgrps (css_set_move_task t src dst s) x) = flags (cgrps s x)"
  by (simp_all add: css_set_move_task_def)

lemma frozen_tasks_of_freeze_task [simp]:
  "frozen_tasks_of (cgroup_freeze_task t fz s) = frozen_tasks_of s"
  by (rule ext) (auto simp add: frozen_tasks_of_def intro!: filter_cong)

lemma frozen_tasks_move:
  assumes "distinct (all_tasks s)" and "t \<in> set (all_tasks s)"
  shows "int (length (frozen_tasks_of (css_set_move_task t src dst s) g)) =
         int (length (frozen_tasks_of s g))
         - (if frozen (tasks s t) \<and> dfl_cgroup (tasks s t) = g then 1 else 0)
         + (if frozen (tasks s t) \<and> dst = g then 1 else 0)"
  unfolding frozen_tasks_of_def
  using length_filter_change_one [OF assms,
      of "\<lambda>x. frozen (tasks (css_set_move_task t src dst s) x) \<and>
              dfl_cgroup (tasks (css_set_move_task t src dst s) x) = g"
         "\<lambda>x. frozen (tasks s x) \<and> dfl_cgroup (tasks s x) = g"]
  by simp

lemma migrate_consistent:
  assumes "consistent s" and "t \<in> set (all_tasks s)"
  shows "consistent (cgroup_freezer_migrate_task t (dfl_cgroup (tasks s t)) dst
                       (css_set_move_task t (dfl_cgroup (tasks s t)) dst s))"
proof -
  let ?src = "dfl_cgroup (tasks s t)"
  let ?s0 = "css_set_move_task t ?src dst s"
  from assms(1) have dt: "distinct (all_tasks s)" and dc: "distinct (all_cgroups s)"
    and fc: "frozen_cnt_inv s" and kt: "kthread_inv s" and dp: "depth_inv s"
    and nw: "Warn_on_once \<notin> set (events s)"
    by (simp_all add: consistent_def)
  note mv = frozen_tasks_move [OF dt assms(2), of ?src dst]
  have dp0: "depth_inv ?s0"
    using dp by (rule depth_inv_cong) simp_all
  show ?thesis
  proof (cases "pf_kthread (tasks s t)")
    case True
    with kt have nf: "\<not> frozen (tasks s t)" by (simp add: kthread_inv_def)
    from True have eq: "cgroup_freezer_migrate_task t ?src dst ?s0 = ?s0"
      by (simp add: cgroup_freezer_migrate_task_def)
    have 1: "frozen_cnt_inv ?s0"
      using fc nf mv by (simp add: frozen_cnt_inv_def)
    have 2: "kthread_inv ?s0"
      using kt by (simp add: kthread_inv_def)
    from dt dc 1 2 dp0 nw show ?thesis
      unfolding eq by (simp add: consistent_def)
  next
    case nk: False
    show ?thesis
    proof (cases "frozen (tasks s t)")
      case True
      let ?s1 = "cgroup_dec_frozen_cnt ?src (cgroup_inc_frozen_cnt dst ?s0)"
      let ?s2 = "cgroup_update_frozen ?src (cgroup_update_frozen dst ?s1)"
      let ?s' = "cgroup_freeze_task t (test_bit_flag CGRP_FREEZE (flags (cgrps ?s2 dst))) ?s2"
      from nk True have eq: "cgroup_freezer_migrate_task t ?src dst ?s0 = ?s'"
        by (simp add: cgroup_freezer_migrate_task_def Let_def)
      from frozen_task_counted [OF fc assms(2) True]
      have pos: "1 \<le> nr_frozen_tasks (freezer (cgrps s ?src))" .
      have 1: "frozen_cnt_inv ?s'"
        using fc True mv by (auto simp add: frozen_cnt_inv_def update_frozen_fields)
      have 4: "Warn_on_once \<notin> set (events ?s')"
        using nw pos by (auto simp add: update_frozen_mem)
      have 2: "kthread_inv ?s'"
        using kt nk pos by (auto simp add: kthread_inv_def update_frozen_mem)
      have 3: "depth_inv ?s'"
        using dp by (rule depth_inv_cong) (auto simp add: update_frozen_fields)
      from dt dc 1 2 3 4 show ?thesis
        unfolding eq by (simp add: consistent_def)
    next
      case False
      let ?s2 = "cgroup_update_frozen ?src (cgroup_update_frozen dst ?s0)"
      let ?s' = "cgroup_freeze_task t (test_bit_flag CGRP_FREEZE (flags (cgrps ?s2 dst))) ?s2"
      from nk False have eq: "cgroup_freezer_migrate_task t ?src dst ?s0 = ?s'"
        by (simp add: cgroup_freezer_migrate_task_def Let_def)
      have 1: "frozen_cnt_inv ?s'"
        using fc False mv by (auto simp add: frozen_cnt_inv_def update_frozen_fields)
      have 4: "Warn_on_once \<notin> set (events ?s')"
        using nw by (auto simp add: update_frozen_mem)
      have 2: "kthread_inv ?s'"
        using kt nk by (auto simp add: kthread_inv_def update_frozen_mem)
      have 3: "depth_inv ?s'"
        using dp by (rule depth_inv_cong) (auto simp add: update_frozen_fields)
      from dt dc 1 2 3 4 show ?thesis
        unfolding eq by (simp add: consistent_def)
    qed
  qed
qed


lemma length_filter_remove1:
  assumes "distinct xs" and "t \<in> set xs"
  shows "int (length (filter P (remove1 t xs))) =
         int (length (filter P xs)) - (if P t then 1 else 0)"
  using assms by (induction xs) auto

lemma exit_consistent:
  assumes "consistent s" and "t \<in> set (all_tasks s)" and "frozen (tasks s t)"
  shows "consistent (cgroup_exit t s)"
proof -
  let ?g = "dfl_cgroup (tasks s t)"
  let ?s1 = "count_task t ?g (- 1) s"
  let ?s2 = "cgroup_update_frozen ?g (cgroup_dec_frozen_cnt ?g ?s1)"
  let ?s' = "?s2\<lparr>all_tasks := remove1 t (all_tasks ?s2)\<rparr>"
  have eq: "cgroup_exit t s = ?s'"
    by (simp add: cgroup_exit_def cgroup_freezer_frozen_exit_def Let_def)
  from assms(1) have dt: "distinct (all_tasks s)" and dc: "distinct (all_cgroups s)"
    and fc: "frozen_cnt_inv s" and kt: "kthread_inv s" and dp: "depth_inv s"
    and nw: "Warn_on_once \<notin> set (events s)"
    by (simp_all add: consistent_def)
  from frozen_task_counted [OF fc assms(2,3)]
  have pos: "1 \<le> nr_frozen_tasks (freezer (cgrps s ?g))" .
  have fto: "int (length (frozen_tasks_of ?s' x)) =
      int (length (frozen_tasks_of s x)) - (if ?g = x then 1 else 0)" for x
    using length_filter_remove1 [OF dt assms(2),
        of "\<lambda>t. frozen (tasks s t) \<and> dfl_cgroup (tasks s t) = x"] assms(3)
    by (simp add: frozen_tasks_of_def)
  have 1: "frozen_cnt_inv ?s'"
    using fc unfolding frozen_cnt_inv_def fto by (auto simp add: update_frozen_fields)
  have 2: "kthread_inv ?s'"
    using kt pos by (auto simp add: kthread_inv_def update_frozen_mem)
  have 3: "depth_inv ?s'"
    using dp by (rule depth_inv_cong) (auto simp add: update_frozen_fields)
  have 4: "Warn_on_once \<notin> set (events ?s')"
    using nw pos by (auto simp add: update_frozen_mem)
  from dt dc 1 2 3 4 show ?thesis
    unfolding eq by (simp add: consistent_def)
qed

lemma cgroup_freeze_static:
  "all_tasks (cgroup_freeze g fz s) = all_tasks s"
  "all_cgroups (cgroup_freeze g fz s) = all_cgroups s"
  "nr_frozen_tasks (freezer (cgrps (cgroup_freeze g fz s) x)) = nr_frozen_tasks (freezer (cgrps s x))"
  "is_dead (cgrps (cgroup_freeze g fz s) x) = is_dead (cgrps s x)"
  "task_count (cgrps (cgroup_freeze g fz s) x) = task_count (cgrps s x)"
  "freeze (freezer (cgrps (cgroup_freeze g fz s) x)) =
     (if x = g then fz else freeze (freezer (cgrps s x)))"
  "frozen (tasks (cgroup_freeze g fz s) t) = frozen (tasks s t)"
  "dfl_cgroup (tasks (cgroup_freeze g fz s) t) = dfl_cgroup (tasks s t)"
  "pf_kthread (tasks (cgroup_freeze g fz s) t) = pf_kthread (tasks s t)"
  by (auto simp add: cgroup_freeze_def Let_def fold_step_fields fold_step_task_fields)

lemma cgroup_freeze_warn:
  assumes "depth_inv s" and "distinct (all_cgroups s)"
  shows "(Warn_on_once \<in> set (events (cgroup_freeze g fz s))) = (Warn_on_once \<in> set (events s))"
proof (cases "freeze (freezer (cgrps s g)) = fz")
  case True
  then show ?thesis by (simp add: cgroup_freeze_def)
next
  case False
  let ?s1 = "upd_cgrp g (\<lambda>c. c\<lparr>freezer := (freezer c)\<lparr>freeze := fz\<rparr>\<rparr>) s"
  let ?ds = "css_for_each_descendant_pre g s"
  have ds1: "css_for_each_descendant_pre g ?s1 = ?ds"
    by (simp add: css_for_each_descendant_pre_def)
  have dist: "distinct ?ds"
    using assms(2) by (simp add: css_for_each_descendant_pre_def)
  have e1: "e_freeze (freezer (cgrps ?s1 d)) = e_freeze (freezer (cgrps s d))" for d
    by simp
  have d1: "is_dead (cgrps ?s1 d) = is_dead (cgrps s d)" for d
    by simp
  have nowarn: "\<not> (\<not> is_dead (cgrps s d) \<and> \<not> fz \<and> e_freeze (freezer (cgrps s d)) - 1 < 0)"
    if "d \<in> set ?ds" for d
  proof -
    from that have d: "d \<in> set (all_cgroups s)" "is_descendant d g"
      by (simp_all add: css_for_each_descendant_pre_def)
    show ?thesis
    proof (cases "fz \<or> is_dead (cgrps s d)")
      case True
      then show ?thesis by auto
    next
      case nf: False
      with False have "freeze (freezer (cgrps s g))" by simp
      with d(2) have "1 \<le> freeze_depth (cgrps s) d" by (rule freeze_depth_descendant)
      moreover from assms(1) d(1) nf have "e_freeze (freezer (cgrps s d)) = freeze_depth (cgrps s) d"
        by (simp add: depth_inv_def)
      ultimately show ?thesis by auto
    qed
  qed
  have "(Warn_on_once \<in> set (events (fst (fold (cgroup_freeze_step fz) ?ds (?s1, False))))) =
        (Warn_on_once \<in> set (events ?s1) \<or>
         (\<exists>d \<in> set ?ds. \<not> is_dead (cgrps ?s1 d) \<and> \<not> fz \<and>
                          e_freeze (freezer (cgrps ?s1 d)) - 1 < 0))"
    using fold_step_warn [OF dist, of fz "(?s1, False)"] by (simp only: fst_conv)
  also have "\<dots> = (Warn_on_once \<in> set (events s))"
    unfolding e1 d1 using nowarn by auto
  finally have "(Warn_on_once \<in> set (events (fst (fold (cgroup_freeze_step fz) ?ds (?s1, False))))) =
        (Warn_on_once \<in> set (events s))" .
  with False show ?thesis
    by (simp add: cgroup_freeze_def Let_def ds1)
qed

lemma cgroup_freeze_depth_inv:
  assumes "depth_inv s" and "distinct (all_cgroups s)"
  shows "depth_inv (cgroup_freeze g fz s)"
proof (cases "freeze (freezer (cgrps s g)) = fz")
  case True
  with assms(1) show ?thesis by (simp add: cgroup_freeze_def)
next
  case False
  let ?S = "cgroup_freeze g fz s"
  from cgroup_freeze_effect [OF False assms(2,1)]
  have ef: "e_freeze (freezer (cgrps ?S d)) =
          (if d \<in> set (live_descendants g s)
           then e_freeze (freezer (cgrps s d)) + (if fz then 1 else - 1)
           else e_freeze (freezer (cgrps s d)))" for d
    by blast
  have fd: "freeze_depth (cgrps ?S) d =
      freeze_depth (cgrps s) d + (if is_descendant d g then (if fz then 1 else - 1) else 0)" for d
    using False by (rule freeze_depth_toggle) (simp add: cgroup_freeze_static)
  have live: "d \<in> set (live_descendants g s) \<longleftrightarrow>
      d \<in> set (all_cgroups s) \<and> is_descendant d g \<and> \<not> is_dead (cgrps s d)" for d
    by (auto simp add: live_descendants_def css_for_each_descendant_pre_def)
  have eq: "e_freeze (freezer (cgrps ?S d)) = freeze_depth (cgrps ?S) d"
    if "d \<in> set (all_cgroups s)" "\<not> is_dead (cgrps s d)" for d
    using that assms(1) by (simp add: ef fd live depth_inv_def)
  have nonneg: "0 \<le> e_freeze (freezer (cgrps ?S d))" for d
  proof (cases "d \<in> set (live_descendants g s)")
    case True
    then have "e_freeze (freezer (cgrps ?S d)) = freeze_depth (cgrps ?S) d"
      by (intro eq) (simp_all add: live)
    then show ?thesis by (simp add: freeze_depth_nonneg)
  next
    case False
    with assms(1) show ?thesis by (simp add: ef depth_inv_def)
  qed
  from eq nonneg show ?thesis
    by (simp add: depth_inv_def cgroup_freeze_static)
qed

lemma cgroup_freeze_kthread_inv:
  assumes "kthread_inv s" and "depth_inv s" and "distinct (all_cgroups s)"
  shows "kthread_inv (cgroup_freeze g fz s)"
proof (cases "freeze (freezer (cgrps s g)) = fz")
  case True
  with assms(1) show ?thesis by (simp add: cgroup_freeze_def)
next
  case False
  let ?S = "cgroup_freeze g fz s"
  note eff = cgroup_freeze_effect [OF False assms(3,2)]
  have tk: "tasks ?S t = tasks s t" if "pf_kthread (tasks s t)" for t
  proof -
    from that have "\<not> freezable s t" by (simp add: freezable_def)
    with eff show ?thesis by simp
  qed
  have ev: "Signal_wake_up t \<notin> set (events ?S)" if k: "pf_kthread (tasks s t)" for t
  proof
    assume "Signal_wake_up t \<in> set (events ?S)"
    then have "Signal_wake_up t \<in> set (filter is_task_action (events ?S))" by simp
    also from eff have "filter is_task_action (events ?S) =
      filter is_task_action (events s) @
      concat (map (\<lambda>d. map (task_action fz) (filter (freezable s) (css_task_iter d s)))
               (filter (\<lambda>d. e_freeze (freezer (cgrps ?S d)) = walk_target fz)
                  (live_descendants g s)))"
      by blast
    finally have "Signal_wake_up t \<in> set (events s) \<or>
        (\<exists>x. freezable s x \<and> Signal_wake_up t = task_action fz x)"
      by auto
    moreover from assms(1) k have "Signal_wake_up t \<notin> set (events s)"
      by (simp add: kthread_inv_def)
    moreover have "x = t" if "Signal_wake_up t = task_action fz x" for x
      using that by (cases fz) (simp_all add: task_action_def)
    ultimately show False
      using k by (auto simp add: freezable_def)
  qed
  from assms(1) tk ev show ?thesis
    by (auto simp add: kthread_inv_def cgroup_freeze_static)
qed

lemma cgroup_freeze_consistent:
  assumes "consistent s"
  shows "consistent (cgroup_freeze g fz s)"
proof -
  from assms have dt: "distinct (all_tasks s)" and dc: "distinct (all_cgroups s)"
    and fc: "frozen_cnt_inv s" and kt: "kthread_inv s" and dp: "depth_inv s"
    and nw: "Warn_on_once \<notin> set (events s)"
    by (simp_all add: consistent_def)
  have "frozen_tasks_of (cgroup_freeze g fz s) = frozen_tasks_of s"
    by (rule ext) (simp add: frozen_tasks_of_def cgroup_freeze_static)
  with fc have 1: "frozen_cnt_inv (cgroup_freeze g fz s)"
    by (simp add: frozen_cnt_inv_def cgroup_freeze_static)
  from dt dc 1 cgroup_freeze_kthread_inv [OF kt dp dc] cgroup_freeze_depth_inv [OF dp dc]
    cgroup_freeze_warn [OF dp dc] nw
  show ?thesis by (simp add: consistent_def cgroup_freeze_static)
qed

lemma apply_op_consistent:
  assumes "consistent s" and "apply_op x s = Some s'"
  shows "consistent s'"
  using assms
  by (cases x)
     (auto simp add: cgroup_freeze_consistent enter_frozen_consistent leave_frozen_consistent
        migrate_consistent exit_consistent split: if_splits)

lemma run_consistent:
  assumes "consistent s" and "run ops s = Some s'"
  shows "consistent s'"
  using assms
proof (induction ops arbitrary: s)
  case Nil
  then show ?case by simp
next
  case (Cons x xs)
  from Cons.prems(2) obtain s1 where a: "apply_op x s = Some s1" and r: "run xs s1 = Some s'"
    by (auto split: option.splits)
  from Cons.prems(1) a have "consistent s1" by (rule apply_op_consistent)
  from this r show ?case by (rule Cons.IH)
qed

lemma consistent_nonneg:
  assumes "consistent s"
  shows "0 \<le> e_freeze (freezer (cgrps s g))" "0 \<le> nr_frozen_tasks (freezer (cgrps s g))"
  using assms by (simp_all add: consistent_def depth_inv_def frozen_cnt_inv_def)


text \<open>The task count, as the spec describes its maintenance.\<close>

lemma user_tasks_of_cong:
  assumes "all_tasks s' = all_tasks s"
    and "\<And>t. pf_kthread (tasks s' t) = pf_kthread (tasks s t)"
    and "\<And>t. dfl_cgroup (tasks s' t) = dfl_cgroup (tasks s t)"
  shows "user_tasks_of s' = user_tasks_of s"
  by (rule ext) (simp add: user_tasks_of_def assms)

lemma task_cnt_inv_cong:
  assumes "task_cnt_inv s" and "all_tasks s' = all_tasks s"
    and "\<And>t. pf_kthread (tasks s' t) = pf_kthread (tasks s t)"
    and "\<And>t. dfl_cgroup (tasks s' t) = dfl_cgroup (tasks s t)"
    and "\<And>x. task_count (cgrps s' x) = task_count (cgrps s x)"
  shows "task_cnt_inv s'"
  using assms(1) user_tasks_of_cong [OF assms(2-4)] by (simp add: task_cnt_inv_def assms(5))

lemma user_tasks_move:
  assumes "distinct (all_tasks s)" and "t \<in> set (all_tasks s)"
  shows "int (length (user_tasks_of (css_set_move_task t src dst s) g)) =
         int (length (user_tasks_of s g))
         - (if \<not> pf_kthread (tasks s t) \<and> dfl_cgroup (tasks s t) = g then 1 else 0)
         + (if \<not> pf_kthread (tasks s t) \<and> dst = g then 1 else 0)"
  unfolding user_tasks_of_def
  using length_filter_change_one [OF assms,
      of "\<lambda>x. \<not> pf_kthread (tasks (css_set_move_task t src dst s) x) \<and>
              dfl_cgroup (tasks (css_set_move_task t src dst s) x) = g"
         "\<lambda>x. \<not> pf_kthread (tasks s x) \<and> dfl_cgroup (tasks s x) = g"]
  by simp

lemma move_task_cnt_inv:
  assumes "task_cnt_inv s" and "distinct (all_tasks s)" and "t \<in> set (all_tasks s)"
  shows "task_cnt_inv (css_set_move_task t (dfl_cgroup (tasks s t)) dst s)"
  using assms(1) user_tasks_move [OF assms(2,3)]
  by (auto simp add: task_cnt_inv_def css_set_move_task_def)

lemma migrate_hook_fields:
  "all_tasks (cgroup_freezer_migrate_task t src dst s) = all_tasks s"
  "pf_kthread (tasks (cgroup_freezer_migrate_task t src dst s) x) = pf_kthread (tasks s x)"
  "dfl_cgroup (tasks (cgroup_freezer_migrate_task t src dst s) x) = dfl_cgroup (tasks s x)"
  "task_count (cgrps (cgroup_freezer_migrate_task t src dst s) g) = task_count (cgrps s g)"
  by (auto simp add: cgroup_freezer_migrate_task_def Let_def update_frozen_fields)

lemma enter_frozen_fields:
  "all_tasks (cgroup_enter_frozen t s) = all_tasks s"
  "pf_kthread (tasks (cgroup_enter_frozen t s) x) = pf_kthread (tasks s x)"
  "dfl_cgroup (tasks (cgroup_enter_frozen t s) x) = dfl_cgroup (tasks s x)"
  "task_count (cgrps (cgroup_enter_frozen t s) g) = task_count (cgrps s g)"
  by (auto simp add: cgroup_enter_frozen_def Let_def update_frozen_fields)

lemma leave_frozen_fields:
  "all_tasks (cgroup_leave_frozen al t s) = all_tasks s"
  "pf_kthread (tasks (cgroup_leave_frozen al t s) x) = pf_kthread (tasks s x)"
  "dfl_cgroup (tasks (cgroup_leave_frozen al t s) x) = dfl_cgroup (tasks s x)"
  "task_count (cgrps (cgroup_leave_frozen al t s) g) = task_count (cgrps s g)"
  by (auto simp add: cgroup_leave_frozen_def Let_def update_frozen_fields recalc_sigpending_def)

lemma exit_task_cnt_inv:
  assumes "task_cnt_inv s" and "distinct (all_tasks s)" and "t \<in> set (all_tasks s)"
  shows "task_cnt_inv (cgroup_exit t s)"
proof -
  let ?g = "dfl_cgroup (tasks s t)"
  have ut: "int (length (user_tasks_of (cgroup_exit t s) x)) =
      int (length (user_tasks_of s x)) - (if \<not> pf_kthread (tasks s t) \<and> ?g = x then 1 else 0)" for x
    using length_filter_remove1 [OF assms(2,3),
        of "\<lambda>t. \<not> pf_kthread (tasks s t) \<and> dfl_cgroup (tasks s t) = x"]
    by (simp add: user_tasks_of_def cgroup_exit_def cgroup_freezer_frozen_exit_def Let_def)
  have tc: "task_count (cgrps (cgroup_exit t s) x) =
      task_count (cgrps s x) - (if \<not> pf_kthread (tasks s t) \<and> ?g = x then 1 else 0)" for x
    by (auto simp add: cgroup_exit_def cgroup_freezer_frozen_exit_def Let_def update_frozen_fields)
  from assms(1) show ?thesis
    unfolding task_cnt_inv_def ut tc by simp
qed

lemma apply_op_task_cnt_inv:
  assumes "task_cnt_inv s" and "distinct (all_tasks s)" and "apply_op x s = Some s'"
  shows "task_cnt_inv s'"
proof (cases x)
  case (Op_freeze g fz)
  with assms(3) have "s' = cgroup_freeze g fz s" by simp
  then show ?thesis
    using assms(1) by (simp only:) (rule task_cnt_inv_cong, assumption, simp_all only: cgroup_freeze_static)
next
  case (Op_enter_frozen t)
  with assms(3) have "s' = cgroup_enter_frozen t s" by (simp split: if_splits)
  then show ?thesis
    using assms(1) by (simp only:) (rule task_cnt_inv_cong, assumption, simp_all only: enter_frozen_fields)
next
  case (Op_leave_frozen t al)
  with assms(3) have "s' = cgroup_leave_frozen al t s" by (simp split: if_splits)
  then show ?thesis
    using assms(1) by (simp only:) (rule task_cnt_inv_cong, assumption, simp_all only: leave_frozen_fields)
next
  case (Op_migrate t dst)
  with assms(3) have t: "t \<in> set (all_tasks s)"
    and eq: "s' = cgroup_freezer_migrate_task t (dfl_cgroup (tasks s t)) dst
                   (css_set_move_task t (dfl_cgroup (tasks s t)) dst s)"
    by (simp_all split: if_splits)
  from move_task_cnt_inv [OF assms(1,2) t]
  show ?thesis
    unfolding eq by (rule task_cnt_inv_cong) (simp_all only: migrate_hook_fields)
next
  case (Op_frozen_exit t)
  with assms(3) have "t \<in> set (all_tasks s)" and "s' = cgroup_exit t s"
    by (simp_all split: if_splits)
  with assms(1,2) show ?thesis
    by (simp add: exit_task_cnt_inv)
qed

lemma run_task_cnt_inv:
  assumes "consistent s" and "task_cnt_inv s" and "run ops s = Some s'"
  shows "task_cnt_inv s'"
  using assms
proof (induction ops arbitrary: s)
  case Nil
  then show ?case by simp
next
  case (Cons x xs)
  from Cons.prems(3) obtain s1 where a: "apply_op x s = Some s1" and r: "run xs s1 = Some s'"
    by (auto split: option.splits)
  from Cons.prems(1) a have c1: "consistent s1" by (rule apply_op_consistent)
  from Cons.prems(1) have "distinct (all_tasks s)" by (simp add: consistent_def)
  with Cons.prems(2) have "task_cnt_inv s1" using a by (rule apply_op_task_cnt_inv)
  from c1 this r show ?case by (rule Cons.IH)
qed

lemma update_frozen_complete:
  assumes "frozen_cnt_inv s" and "task_cnt_inv s"
  shows "(CGRP_FROZEN \<in> flags (cgrps (cgroup_update_frozen g s) g)) =
           (CGRP_FREEZE \<in> flags (cgrps s g) \<and>
            length (frozen_tasks_of s g) = length (user_tasks_of s g))"
  using assms by (simp add: update_frozen_self frozen_cnt_inv_def task_cnt_inv_def)

lemma apply_op_kthread:
  assumes "apply_op x s = Some s'"
  shows "pf_kthread (tasks s' t) = pf_kthread (tasks s t)"
proof (cases x)
  case (Op_freeze g fz)
  with assms show ?thesis by (auto simp add: cgroup_freeze_static)
next
  case (Op_enter_frozen u)
  with assms show ?thesis by (auto simp add: enter_frozen_fields split: if_splits)
next
  case (Op_leave_frozen u al)
  with assms show ?thesis by (auto simp add: leave_frozen_fields split: if_splits)
next
  case (Op_migrate u dst)
  with assms show ?thesis by (auto simp add: migrate_hook_fields split: if_splits)
next
  case (Op_frozen_exit u)
  with assms show ?thesis
    by (auto simp add: cgroup_exit_def cgroup_freezer_frozen_exit_def Let_def split: if_splits)
qed

lemma run_kthread:
  "run ops s = Some s' \<Longrightarrow> pf_kthread (tasks s' t) = pf_kthread (tasks s t)"
proof (induction ops arbitrary: s)
  case Nil
  then show ?case by simp
next
  case (Cons x xs)
  from Cons.prems obtain s1 where a: "apply_op x s = Some s1" and r: "run xs s1 = Some s'"
    by (auto split: option.splits)
  from Cons.IH [OF r] apply_op_kthread [OF a] show ?case by simp
qed

section \<open>Decrements that find a counter that is not positive\<close>

lemma step_negative:
  assumes "\<not> is_dead (cgrps u d)" and "e_freeze (freezer (cgrps u d)) \<le> 0"
  shows "cgroup_freeze_step False d (u, a) =
           (cgroup_do_freeze d False (emit Warn_on_once (bump_depth False d u)), True)"
  using assms
  by (simp add: cgroup_freeze_step_def Let_def bump_depth_def WARN_ON_ONCE_def)

lemma dec_frozen_cnt_negative:
  assumes "nr_frozen_tasks (freezer (cgrps u g)) \<le> 0"
  shows "cgroup_dec_frozen_cnt g u =
           emit Warn_on_once (upd_cgrp g (\<lambda>c. c\<lparr>freezer := (freezer c)
             \<lparr>nr_frozen_tasks := nr_frozen_tasks (freezer c) - 1\<rparr>\<rparr>) u)"
  using assms by (simp add: cgroup_dec_frozen_cnt_def Let_def WARN_ON_ONCE_def)

section \<open>The rounds of a walk\<close>

lemma is_descendant_iff: "is_descendant p x = (x = p \<or> proper_ancestor x p)"
  by (cases p) auto

lemma ancestors_of_set: "x \<in> set (ancestors_of g) \<longleftrightarrow> proper_ancestor x g"
  by (induction g) (auto simp add: is_descendant_iff)

lemma proper_ancestor_neq: "proper_ancestor x g \<Longrightarrow> x \<noteq> g"
  using not_proper_ancestor_self by blast

lemma flips_between_cong:
  "(\<And>y. proper_ancestor y g \<Longrightarrow> F y = F' y) \<Longrightarrow> flips_between F g x = flips_between F' g x"
proof (induction g)
  case Nil
  then show ?case by simp
next
  case (Cons n p)
  have "F p = F' p" by (rule Cons.prems) simp
  moreover have "flips_between F p x = flips_between F' p x"
    by (rule Cons.IH, rule Cons.prems) (simp add: is_descendant_iff)
  ultimately show ?case by simp
qed

lemma flips_between_none: "(\<And>y. \<not> F y) \<Longrightarrow> flips_between F g x = 0"
  by (induction g) simp_all

lemma propagate_counters:
  "(\<forall>x. proper_ancestor x g \<longrightarrow>
      frozen_descendants (cgroup_propagate_frozen g fr desc s) x =
        frozen_descendants s x +
        (if fr then 1 else - 1) *
          (desc + flips_between (flipped s (cgroup_propagate_frozen g fr desc s)) g x) \<and>
      frozen_bit (cgroup_propagate_frozen g fr desc s) x =
        (if fr then frozen_bit s x \<or>
                    (CGRP_FREEZE \<in> flags (cgrps s x) \<and>
                     frozen_descendants (cgroup_propagate_frozen g fr desc s) x =
                       nr_descendants (cgrps s x))
         else False)) \<and>
   events (cgroup_propagate_frozen g fr desc s) =
     events s @ map File_notify
       (filter (flipped s (cgroup_propagate_frozen g fr desc s)) (ancestors_of g))"
proof (induction g arbitrary: desc s)
  case Nil
  then show ?case by simp
next
  case (Cons n p)
  define s1 where "s1 = upd_cgrp p (\<lambda>c. c\<lparr>freezer := (freezer c)
      \<lparr>nr_frozen_descendants := nr_frozen_descendants (freezer c) + (if fr then desc else - desc)\<rparr>\<rparr>) s"
  define b where "b = (if fr then CGRP_FROZEN \<notin> flags (cgrps s p) \<and> CGRP_FREEZE \<in> flags (cgrps s p) \<and>
      nr_frozen_descendants (freezer (cgrps s p)) + desc = nr_descendants (cgrps s p)
    else CGRP_FROZEN \<in> flags (cgrps s p))"
  define s2 where "s2 = (if b then cgroup_file_notify p (upd_cgrp p (\<lambda>c. c\<lparr>flags :=
      (if fr then set_bit_flag CGRP_FROZEN (flags c) else clear_bit_flag CGRP_FROZEN (flags c))\<rparr>) s1)
    else s1)"
  define dsc where "dsc = (if b then desc + 1 else desc)"
  define P where "P = cgroup_propagate_frozen (n # p) fr desc s"
  have unf: "P = cgroup_propagate_frozen p fr dsc s2"
    by (simp add: P_def s1_def b_def s2_def dsc_def Let_def flag_defs)
  have Pp: "cgrps P p = cgrps s2 p"
    unfolding unf by (rule propagate_untouched) simp
  have s2o: "cgrps s2 y = cgrps s y" if "y \<noteq> p" for y
    using that by (simp add: s2_def s1_def)
  have fb: "frozen_bit s2 p = (if b then fr else frozen_bit s p)"
    by (simp add: s2_def s1_def frozen_bit_def flag_defs)
  have bfl: "b \<Longrightarrow> frozen_bit s p = (\<not> fr)"
    by (auto simp add: b_def frozen_bit_def split: if_splits)
  have flp: "flipped s P p = b"
    using fb bfl by (auto simp add: flipped_def frozen_bit_def Pp)
  have nfd2: "frozen_descendants s2 p = frozen_descendants s p + (if fr then 1 else - 1) * desc"
    by (simp add: s2_def s1_def frozen_descendants_def)
  have fr2: "(CGRP_FREEZE \<in> flags (cgrps s2 p)) = (CGRP_FREEZE \<in> flags (cgrps s p))"
    "nr_descendants (cgrps s2 p) = nr_descendants (cgrps s p)"
    by (simp_all add: s2_def s1_def)
  have flo: "flipped s2 P y = flipped s P y" if "proper_ancestor y p" for y
    using that s2o [of y] proper_ancestor_neq [of y p] by (simp add: flipped_def frozen_bit_def)
  note IH = Cons.IH [of dsc s2, folded unf]
  have fbw: "flips_between (flipped s2 P) p x = flips_between (flipped s P) p x" for x
    by (rule flips_between_cong) (rule flo)
  have A: "frozen_descendants P x = frozen_descendants s x +
        (if fr then 1 else - 1) * (desc + flips_between (flipped s P) (n # p) x) \<and>
      frozen_bit P x =
        (if fr then frozen_bit s x \<or>
                    (CGRP_FREEZE \<in> flags (cgrps s x) \<and>
                     frozen_descendants P x = nr_descendants (cgrps s x))
         else False)" if pa: "proper_ancestor x (n # p)" for x
  proof (cases "x = p")
    case True
    have "frozen_descendants P p = frozen_descendants s p + (if fr then 1 else - 1) * desc"
      using nfd2 by (simp add: frozen_descendants_def Pp)
    moreover have "frozen_bit P p = (if b then fr else frozen_bit s p)"
      using fb by (simp add: frozen_bit_def Pp)
    ultimately show ?thesis
      unfolding True by (auto simp add: b_def frozen_bit_def frozen_descendants_def)
  next
    case False
    with pa have pap: "proper_ancestor x p" by (simp add: is_descendant_iff)
    from IH pap have
      i1: "frozen_descendants P x = frozen_descendants s2 x +
        (if fr then 1 else - 1) * (dsc + flips_between (flipped s2 P) p x)" and
      i2: "frozen_bit P x = (if fr then frozen_bit s2 x \<or>
                    (CGRP_FREEZE \<in> flags (cgrps s2 x) \<and>
                     frozen_descendants P x = nr_descendants (cgrps s2 x)) else False)"
      by blast+
    have fbx: "flips_between (flipped s P) (n # p) x = (if b then 1 else 0) + flips_between (flipped s P) p x"
      using False flp by simp
    from i1 have "frozen_descendants P x = frozen_descendants s x +
        (if fr then 1 else - 1) * (desc + flips_between (flipped s P) (n # p) x)"
      unfolding fbx fbw using s2o [OF False]
      by (simp add: dsc_def frozen_descendants_def algebra_simps)
    moreover from i2 have "frozen_bit P x = (if fr then frozen_bit s x \<or>
                    (CGRP_FREEZE \<in> flags (cgrps s x) \<and>
                     frozen_descendants P x = nr_descendants (cgrps s x)) else False)"
      using s2o [OF False] by (simp add: frozen_bit_def)
    ultimately show ?thesis by simp
  qed
  from IH have ev: "events P = events s2 @ map File_notify (filter (flipped s2 P) (ancestors_of p))"
    by blast
  have "filter (flipped s2 P) (ancestors_of p) = filter (flipped s P) (ancestors_of p)"
    by (rule filter_cong) (simp_all add: ancestors_of_set flo)
  moreover have "events s2 = events s @ (if b then [File_notify p] else [])"
    by (simp add: s2_def s1_def)
  ultimately have B: "events P = events s @ map File_notify (filter (flipped s P) (ancestors_of (n # p)))"
    using ev flp by simp
  from A B show ?case unfolding P_def by blast
qed


lemma flipped_same [simp]: "\<not> flipped s s y"
  by (simp add: flipped_def)

lemma flips_below_same [simp]: "flips_below (flipped s s) g x = 0"
  by (simp add: flips_below_def flips_between_none)

lemma update_frozen_revisit:
  "frozen_bit (cgroup_update_frozen g s) g =
     (CGRP_FREEZE \<in> flags (cgrps s g) \<and>
      nr_frozen_tasks (freezer (cgrps s g)) = task_count (cgrps s g)) \<and>
   frozen_descendants (cgroup_update_frozen g s) g = frozen_descendants s g \<and>
   (\<forall>x. proper_ancestor x g \<longrightarrow>
      frozen_descendants (cgroup_update_frozen g s) x =
        frozen_descendants s x +
        (if frozen_bit (cgroup_update_frozen g s) g then 1 else - 1) *
          flips_below (flipped s (cgroup_update_frozen g s)) g x \<and>
      frozen_bit (cgroup_update_frozen g s) x =
        (if flipped s (cgroup_update_frozen g s) g
         then frozen_bit (cgroup_update_frozen g s) g \<and>
              (frozen_bit s x \<or>
               (CGRP_FREEZE \<in> flags (cgrps s x) \<and>
                frozen_descendants (cgroup_update_frozen g s) x = nr_descendants (cgrps s x)))
         else frozen_bit s x)) \<and>
   (\<forall>x. x \<noteq> g \<and> \<not> proper_ancestor x g \<longrightarrow>
      frozen_bit (cgroup_update_frozen g s) x = frozen_bit s x \<and>
      frozen_descendants (cgroup_update_frozen g s) x = frozen_descendants s x) \<and>
   events (cgroup_update_frozen g s) =
     events s @ map File_notify (filter (flipped s (cgroup_update_frozen g s)) (g # ancestors_of g))"
proof -
  define nw where "nw = (CGRP_FREEZE \<in> flags (cgrps s g) \<and>
      nr_frozen_tasks (freezer (cgrps s g)) = task_count (cgrps s g))"
  define U where "U = cgroup_update_frozen g s"
  have self: "frozen_bit U g = nw"
    by (simp add: U_def nw_def frozen_bit_def update_frozen_self)
  have other: "frozen_bit U x = frozen_bit s x \<and> frozen_descendants U x = frozen_descendants s x"
    if "x \<noteq> g" "\<not> proper_ancestor x g" for x
    using that by (simp add: U_def frozen_bit_def frozen_descendants_def update_frozen_untouched)
  show ?thesis
  proof (cases "frozen_bit s g = nw")
    case True
    then have same: "U = s"
      by (auto simp add: U_def nw_def cgroup_update_frozen_def Let_def frozen_bit_def flag_defs)
    have "filter (flipped s s) (g # ancestors_of g) = []"
      by (simp del: ancestors_of.simps)
    with True show ?thesis
      unfolding U_def [symmetric] nw_def [symmetric] unfolding same
      by (simp del: ancestors_of.simps filter.simps)
  next
    case False
    define s0 where "s0 = cgroup_file_notify g (upd_cgrp g (\<lambda>c. c\<lparr>flags :=
        (if nw then set_bit_flag CGRP_FROZEN (flags c) else clear_bit_flag CGRP_FROZEN (flags c))\<rparr>) s)"
    from False have unf: "U = cgroup_propagate_frozen g nw 1 s0"
      by (auto simp add: U_def nw_def s0_def cgroup_update_frozen_def Let_def frozen_bit_def flag_defs)
    have Ug: "cgrps U g = cgrps s0 g"
      unfolding unf by (rule propagate_untouched) simp
    have s0o: "cgrps s0 y = cgrps s y" if "y \<noteq> g" for y
      using that by (simp add: s0_def)
    have flg: "flipped s U g"
      using False self by (simp add: flipped_def)
    have flo: "flipped s0 U y = flipped s U y" if "proper_ancestor y g" for y
      using that s0o [of y] proper_ancestor_neq [of y g] by (simp add: flipped_def frozen_bit_def)
    have fbw: "flips_between (flipped s0 U) g x = flips_between (flipped s U) g x" for x
      by (rule flips_between_cong) (rule flo)
    note pc = propagate_counters [of g nw 1 s0, folded unf]
    have nfdg: "frozen_descendants U g = frozen_descendants s g"
      by (simp add: frozen_descendants_def Ug s0_def)
    have anc: "frozen_descendants U x =
        frozen_descendants s x + (if nw then 1 else - 1) * flips_below (flipped s U) g x \<and>
      frozen_bit U x = (nw \<and> (frozen_bit s x \<or>
               (CGRP_FREEZE \<in> flags (cgrps s x) \<and>
                frozen_descendants U x = nr_descendants (cgrps s x))))"
      if pa: "proper_ancestor x g" for x
    proof -
      from pa have ne: "x \<noteq> g" by (rule proper_ancestor_neq)
      from pc pa have
        i1: "frozen_descendants U x = frozen_descendants s0 x +
          (if nw then 1 else - 1) * (1 + flips_between (flipped s0 U) g x)" and
        i2: "frozen_bit U x = (if nw then frozen_bit s0 x \<or>
                    (CGRP_FREEZE \<in> flags (cgrps s0 x) \<and>
                     frozen_descendants U x = nr_descendants (cgrps s0 x)) else False)"
        by blast+
      from i1 have "frozen_descendants U x =
          frozen_descendants s x + (if nw then 1 else - 1) * flips_below (flipped s U) g x"
        unfolding fbw using s0o [OF ne] flg
        by (simp add: flips_below_def frozen_descendants_def)
      moreover from i2 have "frozen_bit U x = (nw \<and> (frozen_bit s x \<or>
               (CGRP_FREEZE \<in> flags (cgrps s x) \<and>
                frozen_descendants U x = nr_descendants (cgrps s x))))"
        using s0o [OF ne] by (simp add: frozen_bit_def)
      ultimately show ?thesis by simp
    qed
    from pc have ev: "events U = events s0 @ map File_notify (filter (flipped s0 U) (ancestors_of g))"
      by blast
    have "filter (flipped s0 U) (ancestors_of g) = filter (flipped s U) (ancestors_of g)"
      by (rule filter_cong) (simp_all add: ancestors_of_set flo)
    moreover have "events s0 = events s @ [File_notify g]"
      by (simp add: s0_def)
    ultimately have evs: "events U = events s @ map File_notify (filter (flipped s U) (g # ancestors_of g))"
      using ev flg by simp
    from self nfdg anc other evs flg show ?thesis
      unfolding U_def [symmetric] nw_def [symmetric] by simp
  qed
qed


lemma do_freeze_revisit:
  "events (cgroup_do_freeze d fz u) =
     events u @ map (task_action fz) (filter (freezable u) (css_task_iter d u)) @
     (if nr_descendants (cgrps u d) = frozen_descendants u d
      then map File_notify (filter (flipped u (cgroup_do_freeze d fz u)) (d # ancestors_of d))
      else []) \<and>
   (if nr_descendants (cgrps u d) = frozen_descendants u d
    then revisited fz d u (cgroup_do_freeze d fz u)
    else untouched_counters u (cgroup_do_freeze d fz u))"
proof -
  define u1 where "u1 = upd_cgrp d (\<lambda>c. c\<lparr>flags := (if fz then set_bit_flag CGRP_FREEZE (flags c)
                                            else clear_bit_flag CGRP_FREEZE (flags c))\<rparr>) u"
  define u2 where "u2 = fold (do_freeze_task fz) (css_task_iter d u1) u1"
  define U where "U = cgroup_do_freeze d fz u"
  have cg2: "cgrps u2 = cgrps u1"
    by (simp add: u2_def fold_do_freeze_task_sel)
  have cg1: "cgrps u1 x = (if x = d then (cgrps u d)\<lparr>flags := (if fz then set_bit_flag CGRP_FREEZE (flags (cgrps u d))
                                            else clear_bit_flag CGRP_FREEZE (flags (cgrps u d)))\<rparr> else cgrps u x)" for x
    by (simp add: u1_def)
  have fb2: "frozen_bit u2 = frozen_bit u"
    by (rule ext) (simp add: frozen_bit_def cg2 cg1 flag_defs)
  have fd2: "frozen_descendants u2 = frozen_descendants u"
    by (rule ext) (simp add: frozen_descendants_def cg2 cg1)
  have fl2: "flipped u2 = flipped u"
    by (rule ext, rule ext) (simp add: flipped_def fb2)
  have fz2: "(CGRP_FREEZE \<in> flags (cgrps u2 x)) = (if x = d then fz else CGRP_FREEZE \<in> flags (cgrps u x))" for x
    by (simp add: cg2 cg1 flag_defs)
  have st2: "nr_descendants (cgrps u2 x) = nr_descendants (cgrps u x)"
    "nr_frozen_tasks (freezer (cgrps u2 x)) = nr_frozen_tasks (freezer (cgrps u x))"
    "task_count (cgrps u2 x) = task_count (cgrps u x)" for x
    by (simp_all add: cg2 cg1)
  have ev2: "events u2 = events u @ map (task_action fz) (filter (freezable u) (css_task_iter d u))"
    by (simp add: u2_def u1_def fold_do_freeze_task_events)
  have unf: "U = (if nr_descendants (cgrps u d) = frozen_descendants u d
                  then cgroup_update_frozen d u2 else u2)"
    by (simp add: U_def cgroup_do_freeze_def Let_def u1_def [symmetric] u2_def [symmetric]
          st2 frozen_descendants_def cg2 cg1)
  show ?thesis
  proof (cases "nr_descendants (cgrps u d) = frozen_descendants u d")
    case True
    with unf have U: "U = cgroup_update_frozen d u2" by simp
    note r = update_frozen_revisit [of d u2, folded U, unfolded fl2 fb2 fd2 st2 ev2]
    from r have ev: "events U = (events u @ map (task_action fz) (filter (freezable u) (css_task_iter d u))) @
        map File_notify (filter (flipped u U) (d # ancestors_of d))"
      by blast
    have rv: "revisited fz d u U"
      unfolding revisited_def
    proof (intro conjI allI impI)
      from r show "frozen_bit U d =
        (fz \<and> nr_frozen_tasks (freezer (cgrps u d)) = task_count (cgrps u d))"
        by (simp add: fz2)
      from r show "frozen_descendants U d = frozen_descendants u d" by blast
    next
      fix x assume pa: "proper_ancestor x d"
      then have ne: "x \<noteq> d" by (rule proper_ancestor_neq)
      from r pa show "frozen_descendants U x =
           frozen_descendants u x +
           (if frozen_bit U d then 1 else - 1) * flips_below (flipped u U) d x"
        by blast
      from r pa have "frozen_bit U x =
        (if flipped u U d
         then frozen_bit U d \<and>
              (frozen_bit u x \<or>
               (CGRP_FREEZE \<in> flags (cgrps u2 x) \<and>
                frozen_descendants U x = nr_descendants (cgrps u x)))
         else frozen_bit u x)"
        by blast
      with ne show "frozen_bit U x =
           (if flipped u U d
            then frozen_bit U d \<and>
                 (frozen_bit u x \<or>
                  (CGRP_FREEZE \<in> flags (cgrps u x) \<and>
                   frozen_descendants U x = nr_descendants (cgrps u x)))
            else frozen_bit u x)"
        by (simp add: fz2)
    next
      fix x assume "x \<noteq> d \<and> \<not> proper_ancestor x d"
      with r show "frozen_bit U x = frozen_bit u x" "frozen_descendants U x = frozen_descendants u x"
        by blast+
    qed
    from True ev rv show ?thesis
      unfolding U_def [symmetric] by simp
  next
    case False
    with unf have U: "U = u2" by simp
    from False show ?thesis
      unfolding U_def [symmetric] U by (simp add: ev2 untouched_counters_def fb2 fd2)
  qed
qed


lemma bump_depth_sel [simp]:
  "frozen_bit (bump_depth fz d t) = frozen_bit t"
  "frozen_descendants (bump_depth fz d t) = frozen_descendants t"
  "flipped (bump_depth fz d t) = flipped t"
  "freezable (bump_depth fz d t) = freezable t"
  "css_task_iter g (bump_depth fz d t) = css_task_iter g t"
  "events (bump_depth fz d t) = events t"
  "tasks (bump_depth fz d t) = tasks t"
  "all_cgroups (bump_depth fz d t) = all_cgroups t"
  "all_tasks (bump_depth fz d t) = all_tasks t"
  "nr_descendants (cgrps (bump_depth fz d t) x) = nr_descendants (cgrps t x)"
  "task_count (cgrps (bump_depth fz d t) x) = task_count (cgrps t x)"
  "nr_frozen_tasks (freezer (cgrps (bump_depth fz d t) x)) = nr_frozen_tasks (freezer (cgrps t x))"
  "flags (cgrps (bump_depth fz d t) x) = flags (cgrps t x)"
  "cg_static (cgrps (bump_depth fz d t) x) = cg_static (cgrps t x)"
  "e_freeze (freezer (cgrps (bump_depth fz d t) x)) =
     (if x = d then e_freeze (freezer (cgrps t d)) + (if fz then 1 else - 1)
      else e_freeze (freezer (cgrps t x)))"
  by (auto simp add: bump_depth_def frozen_bit_def frozen_descendants_def flipped_def fun_eq_iff)

lemma do_freeze_round: "round_acts fz d t (cgroup_do_freeze d fz (bump_depth fz d t))"
proof -
  define u where "u = bump_depth fz d t"
  note r = do_freeze_revisit [of d fz u]
  have st: "cg_static (cgrps (cgroup_do_freeze d fz u) x) = cg_static (cgrps t x)" for x
    using cg_adm_imp_static [OF conjunct2 [OF conjunct2 [OF conjunct2 [OF do_freeze_frame]]], of d fz u x]
    by (simp add: u_def)
  have ef: "e_freeze (freezer (cgrps (cgroup_do_freeze d fz u) x)) =
             (if x = d then e_freeze (freezer (cgrps t d)) + (if fz then 1 else - 1)
              else e_freeze (freezer (cgrps t x)))" for x
    by (simp add: do_freeze_fields u_def)
  have fl: "(CGRP_FREEZE \<in> flags (cgrps (cgroup_do_freeze d fz u) x)) =
             (if x = d then fz else CGRP_FREEZE \<in> flags (cgrps t x))" for x
    by (simp add: do_freeze_flag u_def)
  have tk: "tasks (cgroup_do_freeze d fz u) x =
             (if x \<in> set (css_task_iter d t) \<and> freezable t x
              then (tasks t x)\<lparr>trap_freeze := fz\<rparr> else tasks t x)" for x
    by (simp add: do_freeze_tasks u_def)
  have rv: "revisited fz d u U = revisited fz d t U" for U
    by (simp add: revisited_def u_def)
  have uc: "untouched_counters u U = untouched_counters t U" for U
    by (simp add: untouched_counters_def u_def)
  have g: "(nr_descendants (cgrps u d) = frozen_descendants u d) =
           (nr_descendants (cgrps t d) = frozen_descendants t d)"
    by (simp add: u_def)
  from r have ev: "events (cgroup_do_freeze d fz u) =
     events t @ map (task_action fz) (filter (freezable t) (css_task_iter d t)) @
     (if nr_descendants (cgrps t d) = frozen_descendants t d
      then map File_notify (filter (flipped t (cgroup_do_freeze d fz u)) (d # ancestors_of d))
      else [])"
    unfolding g by (simp add: u_def del: ancestors_of.simps filter.simps)
  from r have cnt: "if nr_descendants (cgrps t d) = frozen_descendants t d
    then revisited fz d t (cgroup_do_freeze d fz u)
    else untouched_counters t (cgroup_do_freeze d fz u)"
    unfolding g rv uc by blast
  have ls: "all_cgroups u = all_cgroups t" "all_tasks u = all_tasks t"
    by (simp_all add: u_def)
  from st ef fl tk ev cnt ls show ?thesis
    unfolding round_acts_def u_def [symmetric] by simp
qed

lemma step_round:
  assumes "\<not> is_dead (cgrps t d)"
    and "if fz then 0 \<le> e_freeze (freezer (cgrps t d)) else 1 \<le> e_freeze (freezer (cgrps t d))"
  shows "cgroup_freeze_step fz d (t, a) =
     (if e_freeze (freezer (cgrps t d)) + (if fz then 1 else - 1) = walk_target fz
      then (cgroup_do_freeze d fz (bump_depth fz d t), True)
      else (bump_depth fz d t, a))"
  using assms
  by (auto simp add: cgroup_freeze_step_def Let_def bump_depth_def walk_target_def WARN_ON_ONCE_def)

lemma nth_notin_take: "distinct xs \<Longrightarrow> k < length xs \<Longrightarrow> xs ! k \<notin> set (take k xs)"
  by (auto simp add: in_set_conv_nth nth_eq_iff_index_eq)

lemma step_applied:
  "snd (cgroup_freeze_step fz d sa) = (snd sa \<or> step_acts fz (fst sa) d)"
  by (auto simp add: cgroup_freeze_step_def Let_def step_acts_def)

lemma fold_step_applied:
  "distinct ds \<Longrightarrow>
   snd (fold (cgroup_freeze_step fz) ds sa) = (snd sa \<or> (\<exists>d \<in> set ds. step_acts fz (fst sa) d))"
proof (induction ds arbitrary: sa)
  case Nil
  then show ?case by simp
next
  case (Cons d ds)
  let ?s1 = "cgroup_freeze_step fz d sa"
  from Cons have IH: "snd (fold (cgroup_freeze_step fz) ds ?s1) =
      (snd ?s1 \<or> (\<exists>x \<in> set ds. step_acts fz (fst ?s1) x))"
    by simp
  from Cons.prems have nd: "d \<notin> set ds" by simp
  have "(\<exists>x \<in> set ds. step_acts fz (fst ?s1) x) = (\<exists>x \<in> set ds. step_acts fz (fst sa) x)"
    by (intro bex_cong refl) (simp add: step_acts_notin [OF nd])
  then show ?case
    by (auto simp add: IH step_applied)
qed

lemma cgroup_freeze_rounds:
  assumes "freeze (freezer (cgrps s g)) \<noteq> fz" and "distinct (all_cgroups s)" and "depth_inv s"
  shows
   "cgroup_freeze g fz s =
      (if snd (walk_prefix g fz s (length (css_for_each_descendant_pre g s)))
       then fst (walk_prefix g fz s (length (css_for_each_descendant_pre g s)))
       else cgroup_file_notify g
              (fst (walk_prefix g fz s (length (css_for_each_descendant_pre g s)))))"
   "snd (walk_prefix g fz s (length (css_for_each_descendant_pre g s))) =
      (\<exists>d \<in> set (live_descendants g s).
         e_freeze (freezer (cgrps s d)) + (if fz then 1 else - 1) = walk_target fz)"
   "k < length (css_for_each_descendant_pre g s) \<Longrightarrow> walk_round g fz s k"
proof -
  let ?s1 = "upd_cgrp g (\<lambda>c. c\<lparr>freezer := (freezer c)\<lparr>freeze := fz\<rparr>\<rparr>) s"
  let ?ds = "css_for_each_descendant_pre g s"
  have ds1: "css_for_each_descendant_pre g ?s1 = ?ds"
    by (simp add: css_for_each_descendant_pre_def)
  have dist: "distinct ?ds"
    using assms(2) by (simp add: css_for_each_descendant_pre_def)
  show "cgroup_freeze g fz s =
      (if snd (walk_prefix g fz s (length ?ds)) then fst (walk_prefix g fz s (length ?ds))
       else cgroup_file_notify g (fst (walk_prefix g fz s (length ?ds))))"
    using assms(1) by (simp add: cgroup_freeze_def Let_def ds1 walk_prefix_def)
  have acts: "step_acts fz ?s1 d =
      (\<not> is_dead (cgrps s d) \<and> e_freeze (freezer (cgrps s d)) + (if fz then 1 else - 1) = walk_target fz)"
    if "d \<in> set ?ds" for d
  proof -
    from that have "d \<in> set (all_cgroups s)" "is_descendant d g"
      by (simp_all add: css_for_each_descendant_pre_def)
    from step_acts_depth [OF assms(3,1) this] show ?thesis
      by (simp add: walk_target_def)
  qed
  have "snd (walk_prefix g fz s (length ?ds)) = (\<exists>d \<in> set ?ds. step_acts fz ?s1 d)"
    by (simp add: walk_prefix_def fold_step_applied [OF dist])
  also have "\<dots> = (\<exists>d \<in> set ?ds. \<not> is_dead (cgrps s d) \<and>
      e_freeze (freezer (cgrps s d)) + (if fz then 1 else - 1) = walk_target fz)"
    by (intro bex_cong refl) (rule acts)
  also have "\<dots> = (\<exists>d \<in> set (live_descendants g s).
         e_freeze (freezer (cgrps s d)) + (if fz then 1 else - 1) = walk_target fz)"
    by (auto simp add: live_descendants_def)
  finally show "snd (walk_prefix g fz s (length ?ds)) =
      (\<exists>d \<in> set (live_descendants g s).
         e_freeze (freezer (cgrps s d)) + (if fz then 1 else - 1) = walk_target fz)" .
  show "walk_round g fz s k" if k: "k < length ?ds"
  proof -
    define d where "d = ?ds ! k"
    define r where "r = walk_prefix g fz s k"
    define r' where "r' = walk_prefix g fz s (Suc k)"
    have suc: "r' = cgroup_freeze_step fz d r"
      by (simp add: r'_def r_def d_def walk_prefix_def take_Suc_conv_app_nth [OF k])
    have dk: "distinct (take k ?ds)" using dist by simp
    have nin: "d \<notin> set (take k ?ds)"
      unfolding d_def using dist k by (rule nth_notin_take)
    have dm: "d \<in> set ?ds" unfolding d_def using k by simp
    then have dall: "d \<in> set (all_cgroups s)" and desc: "is_descendant d g"
      by (simp_all add: css_for_each_descendant_pre_def)
    have ef: "e_freeze (freezer (cgrps (fst r) d)) = e_freeze (freezer (cgrps s d))"
      using nin by (simp add: r_def walk_prefix_def fold_step_e_freeze [OF dk])
    have dead: "is_dead (cgrps (fst r) d) = is_dead (cgrps s d)"
      by (simp add: r_def walk_prefix_def fold_step_fields)
    show ?thesis
    proof (cases "is_dead (cgrps s d)")
      case True
      with dead have "r' = r"
        unfolding suc by (simp add: cgroup_freeze_step_def Let_def)
      with True show ?thesis
        by (simp add: walk_round_def Let_def d_def [symmetric] r_def [symmetric] r'_def [symmetric])
    next
      case False
      from assms(3) have nonneg: "0 \<le> e_freeze (freezer (cgrps s d))"
        by (simp add: depth_inv_def)
      have bound: "if fz then 0 \<le> e_freeze (freezer (cgrps (fst r) d))
                   else 1 \<le> e_freeze (freezer (cgrps (fst r) d))"
      proof (cases fz)
        case True
        with nonneg ef show ?thesis by simp
      next
        case fzF: False
        with assms(1) have "freeze (freezer (cgrps s g))" by simp
        with desc have "1 \<le> freeze_depth (cgrps s) d"
          by (rule freeze_depth_descendant)
        moreover from assms(3) dall False have
          "e_freeze (freezer (cgrps s d)) = freeze_depth (cgrps s) d"
          by (simp add: depth_inv_def)
        ultimately show ?thesis using fzF ef by simp
      qed
      from False dead have live: "\<not> is_dead (cgrps (fst r) d)" by simp
      have "r' = cgroup_freeze_step fz d (fst r, snd r)"
        unfolding suc by simp
      also note step_round [OF live bound, of "snd r"]
      finally have st: "r' =
         (if e_freeze (freezer (cgrps s d)) + (if fz then 1 else - 1) = walk_target fz
          then (cgroup_do_freeze d fz (bump_depth fz d (fst r)), True)
          else (bump_depth fz d (fst r), snd r))"
        unfolding ef .
      show ?thesis
      proof (cases "e_freeze (freezer (cgrps s d)) + (if fz then 1 else - 1) = walk_target fz")
        case True
        with st have "r' = (cgroup_do_freeze d fz (bump_depth fz d (fst r)), True)" by simp
        then have "snd r'" "round_acts fz d (fst r) (fst r')"
          by (simp_all add: do_freeze_round)
        with True False ef show ?thesis
          by (simp add: walk_round_def Let_def d_def [symmetric] r_def [symmetric] r'_def [symmetric])
      next
        case nt: False
        with st have "r' = (bump_depth fz d (fst r), snd r)" by simp
        with nt False ef show ?thesis
          by (simp add: walk_round_def Let_def d_def [symmetric] r_def [symmetric] r'_def [symmetric])
      qed
    qed
  qed
qed

section \<open>Claims\<close>

text \<open>
  C6. \<open>cgroup_freeze(cgrp, v)\<close> returns at once when \<open>cgrp->freezer.freeze\<close> already equals
  \<open>v\<close>: the whole state, events included, is unchanged. Hence freezing a group twice in a
  row gives the state that freezing it once gives.
\<close>

theorem cgroup_freeze_noop_idempotent:
  "(freeze (freezer (cgrps s g)) = v \<longrightarrow> cgroup_freeze g v s = s) \<and>
   cgroup_freeze g True (cgroup_freeze g True s) = cgroup_freeze g True s"
  by (simp add: cgroup_freeze_def [of g True "cgroup_freeze g True s"] cgroup_freeze_sets_freeze)
     (simp add: cgroup_freeze_def)

theorem cgroup_freeze_noop_idempotent_witness:
  "freeze (freezer (cgrps (cgroup_freeze [1] True ex_state) [1])) = True \<and>
   cgroup_freeze [1] True (cgroup_freeze [1] True ex_state) = cgroup_freeze [1] True ex_state"
  using cgroup_freeze_noop_idempotent [of "cgroup_freeze [1] True ex_state" "[1]" True]
  by (simp add: cgroup_freeze_sets_freeze)

text \<open>
  C8. When the current task is frozen and calls \<open>cgroup_leave_frozen(false)\<close> while its group
  still has \<open>CGRP_FREEZE\<close> set, no counter and no task field changes: the frozen-task count of
  the group and the task's \<open>frozen\<close> flag are as before, and the only effect is the call of
  \<open>recalc_sigpending()\<close>, which sends the task back into the signal handling loop.
\<close>

theorem cgroup_leave_frozen_keeps_frozen:
  assumes "test_bit_flag CGRP_FREEZE (flags (cgrps s (dfl_cgroup (tasks s cur))))"
    and "frozen (tasks s cur)"
  shows "cgroup_leave_frozen False cur s = s\<lparr>events := events s @ [Recalc_sigpending cur]\<rparr> \<and>
         cgrps (cgroup_leave_frozen False cur s) = cgrps s \<and>
         tasks (cgroup_leave_frozen False cur s) = tasks s \<and>
         frozen (tasks (cgroup_leave_frozen False cur s) cur)"
  using assms by (simp add: cgroup_leave_frozen_def recalc_sigpending_def emit_def)

theorem cgroup_leave_frozen_keeps_frozen_witness:
  "test_bit_flag CGRP_FREEZE (flags (cgrps (cgroup_enter_frozen 1 (cgroup_freeze [1] True ex_state))
      (dfl_cgroup (tasks (cgroup_enter_frozen 1 (cgroup_freeze [1] True ex_state)) 1)))) \<and>
   frozen (tasks (cgroup_enter_frozen 1 (cgroup_freeze [1] True ex_state)) 1) \<and>
   events (cgroup_leave_frozen False 1 (cgroup_enter_frozen 1 (cgroup_freeze [1] True ex_state))) =
     [Signal_wake_up 1, Signal_wake_up 2, File_notify [1], Recalc_sigpending 1]"
proof -
  let ?s = "cgroup_enter_frozen 1 (cgroup_freeze [1] True ex_state)"
  have h1: "test_bit_flag CGRP_FREEZE (flags (cgrps ?s (dfl_cgroup (tasks ?s 1))))"
    by (simp add: model_defs)
  have h2: "frozen (tasks ?s 1)"
    by (simp add: model_defs)
  have ev: "events ?s = [Signal_wake_up 1, Signal_wake_up 2, File_notify [1]]"
    by (simp add: model_defs)
  from cgroup_leave_frozen_keeps_frozen [OF h1 h2] have
    "events (cgroup_leave_frozen False 1 ?s) = events ?s @ [Recalc_sigpending 1]"
    by simp
  with h1 h2 ev show ?thesis by simp
qed

text \<open>
  C1. Evaluation of the code where the claimed invariant fails. In the example hierarchy,
  \<open>cgroup_freeze\<close> is applied to \<open>[1]\<close>. When task 1 (in \<open>[1]\<close>) then enters the frozen
  state, \<open>cgroup_update_frozen\<close> sets \<open>CGRP_FROZEN\<close> on \<open>[1]\<close> from the task counts alone:
  no descendant of \<open>[1]\<close> is frozen (0 of 1), and its child \<open>[2, 1]\<close> is not frozen. If
  \<open>[1]\<close> is then thawed, \<open>cgroup_do_freeze\<close> skips the update because the descendant
  counts differ, and \<open>[1]\<close> stays \<open>CGRP_FROZEN\<close> with \<open>CGRP_FREEZE\<close> cleared. When instead
  task 2 (in \<open>[2, 1]\<close>) enters the frozen state, \<open>cgroup_propagate_frozen\<close> sets
  \<open>CGRP_FROZEN\<close> on \<open>[1]\<close> from the descendant counts alone, with none of the tasks of
  \<open>[1]\<close> frozen (0 of 1).
\<close>

theorem cgroup_frozen_reported_early:
  "CGRP_FROZEN \<in> flags (cgrps (cgroup_enter_frozen 1 (cgroup_freeze [1] True ex_state)) [1]) \<and>
   nr_frozen_descendants (freezer
     (cgrps (cgroup_enter_frozen 1 (cgroup_freeze [1] True ex_state)) [1])) = 0 \<and>
   nr_descendants (cgrps (cgroup_enter_frozen 1 (cgroup_freeze [1] True ex_state)) [1]) = 1 \<and>
   CGRP_FROZEN \<notin> flags (cgrps (cgroup_enter_frozen 1 (cgroup_freeze [1] True ex_state)) [2, 1]) \<and>
   CGRP_FROZEN \<in> flags (cgrps (cgroup_freeze [1] False
            (cgroup_enter_frozen 1 (cgroup_freeze [1] True ex_state))) [1]) \<and>
   CGRP_FREEZE \<notin> flags (cgrps (cgroup_freeze [1] False
            (cgroup_enter_frozen 1 (cgroup_freeze [1] True ex_state))) [1]) \<and>
   CGRP_FROZEN \<in> flags (cgrps (cgroup_enter_frozen 2 (cgroup_freeze [1] True ex_state)) [1]) \<and>
   nr_frozen_tasks (freezer
     (cgrps (cgroup_enter_frozen 2 (cgroup_freeze [1] True ex_state)) [1])) = 0 \<and>
   task_count (cgrps (cgroup_enter_frozen 2 (cgroup_freeze [1] True ex_state)) [1]) = 1"
  by (simp add: model_defs)

text \<open>
  C2, as stated, fails. In \<open>ex_migrating\<close> task 1 is frozen and is not a kernel thread, and the
  destination \<open>[2, 1]\<close> has \<open>CGRP_FREEZE\<close> set, so the requested state of the destination
  matches the state of the task. \<open>cgroup_freezer_migrate_task\<close> nevertheless calls
  \<open>cgroup_freeze_task\<close>, which sets \<open>JOBCTL_TRAP_FREEZE\<close> again and wakes the task with
  \<open>signal_wake_up\<close>.
\<close>

theorem cgroup_freezer_migrate_task_counterexample:
  "frozen (tasks ex_migrating 1) \<and> \<not> pf_kthread (tasks ex_migrating 1) \<and>
   CGRP_FREEZE \<in> flags (cgrps ex_migrating [2, 1]) \<and>
   filter is_task_action (events (cgroup_freezer_migrate_task 1 [1] [2, 1] ex_migrating)) =
     filter is_task_action (events ex_migrating) @ [Signal_wake_up 1]"
  by (simp add: model_defs ex_migrating_def)

text \<open>
  C2, amended. Migrating a frozen task that is not a kernel thread from \<open>src\<close> to another
  group \<open>dst\<close> takes one from the frozen-task count of \<open>src\<close> and adds one to that of \<open>dst\<close>,
  recomputes \<open>CGRP_FROZEN\<close> of \<open>src\<close>, and of \<open>dst\<close> unless \<open>dst\<close> is an ancestor of \<open>src\<close>
  (the later update of \<open>src\<close> may then overwrite it), from \<open>CGRP_FREEZE\<close> and the task counts,
  and leaves the task's \<open>frozen\<close> flag set. The task is then forced to the state the
  destination requests: unless it is about to die, it receives exactly one action, a freeze
  action if \<open>dst\<close> has \<open>CGRP_FREEZE\<close> set and a thaw action otherwise, whether or not that
  state matches its own.
\<close>

theorem cgroup_freezer_migrate_frozen_task:
  assumes "\<not> pf_kthread (tasks s t)" and "frozen (tasks s t)" and "src \<noteq> dst"
  shows
   "nr_frozen_tasks (freezer (cgrps (cgroup_freezer_migrate_task t src dst s) src)) =
      nr_frozen_tasks (freezer (cgrps s src)) - 1 \<and>
    nr_frozen_tasks (freezer (cgrps (cgroup_freezer_migrate_task t src dst s) dst)) =
      nr_frozen_tasks (freezer (cgrps s dst)) + 1 \<and>
    (CGRP_FROZEN \<in> flags (cgrps (cgroup_freezer_migrate_task t src dst s) src)) =
      (CGRP_FREEZE \<in> flags (cgrps s src) \<and>
       nr_frozen_tasks (freezer (cgrps s src)) - 1 = task_count (cgrps s src)) \<and>
    (\<not> proper_ancestor dst src \<longrightarrow>
       (CGRP_FROZEN \<in> flags (cgrps (cgroup_freezer_migrate_task t src dst s) dst)) =
         (CGRP_FREEZE \<in> flags (cgrps s dst) \<and>
          nr_frozen_tasks (freezer (cgrps s dst)) + 1 = task_count (cgrps s dst))) \<and>
    frozen (tasks (cgroup_freezer_migrate_task t src dst s) t) \<and>
    filter is_task_action (events (cgroup_freezer_migrate_task t src dst s)) =
      filter is_task_action (events s) @
      (if has_sighand (tasks s t)
       then [if CGRP_FREEZE \<in> flags (cgrps s dst) then Signal_wake_up t else Wake_up_process t]
       else []) \<and>
    (has_sighand (tasks s t) \<longrightarrow>
       trap_freeze (tasks (cgroup_freezer_migrate_task t src dst s) t) =
         (CGRP_FREEZE \<in> flags (cgrps s dst)))"
proof -
  let ?s1 = "cgroup_dec_frozen_cnt src (cgroup_inc_frozen_cnt dst s)"
  let ?s2a = "cgroup_update_frozen dst ?s1"
  let ?s2 = "cgroup_update_frozen src ?s2a"
  let ?fz = "test_bit_flag CGRP_FREEZE (flags (cgrps ?s2 dst))"
  have mig: "cgroup_freezer_migrate_task t src dst s = cgroup_freeze_task t ?fz ?s2"
    using assms(1,2) by (simp add: cgroup_freezer_migrate_task_def Let_def)
  have fz: "?fz = (CGRP_FREEZE \<in> flags (cgrps s dst))"
    using assms(3) by (simp add: test_bit_flag_def update_frozen_fields)
  have c1: "nr_frozen_tasks (freezer (cgrps ?s2 src)) = nr_frozen_tasks (freezer (cgrps s src)) - 1"
    using assms(3) by (simp add: update_frozen_fields)
  have c2: "nr_frozen_tasks (freezer (cgrps ?s2 dst)) = nr_frozen_tasks (freezer (cgrps s dst)) + 1"
    using assms(3) by (simp add: update_frozen_fields)
  have f1: "(CGRP_FROZEN \<in> flags (cgrps ?s2 src)) =
      (CGRP_FREEZE \<in> flags (cgrps s src) \<and>
       nr_frozen_tasks (freezer (cgrps s src)) - 1 = task_count (cgrps s src))"
    using assms(3) by (simp add: update_frozen_self update_frozen_fields)
  have f2: "(CGRP_FROZEN \<in> flags (cgrps ?s2 dst)) =
         (CGRP_FREEZE \<in> flags (cgrps s dst) \<and>
          nr_frozen_tasks (freezer (cgrps s dst)) + 1 = task_count (cgrps s dst))"
    if "\<not> proper_ancestor dst src"
  proof -
    from that assms(3) have "cgrps ?s2 dst = cgrps ?s2a dst"
      by (intro update_frozen_untouched) auto
    then show ?thesis
      using assms(3) by (simp add: update_frozen_self)
  qed
  have ev: "filter is_task_action (events ?s2) = filter is_task_action (events s)"
    by (simp add: update_frozen_task_actions)
  from c1 c2 f1 f2 ev fz assms(2) show ?thesis
    unfolding mig by simp
qed

theorem cgroup_freezer_migrate_frozen_task_witness:
  "\<not> pf_kthread (tasks ex_migrating 1) \<and> frozen (tasks ex_migrating 1) \<and>
   nr_frozen_tasks (freezer (cgrps ex_migrating [1])) = 1 \<and>
   nr_frozen_tasks (freezer (cgrps (cgroup_freezer_migrate_task 1 [1] [2, 1] ex_migrating) [1])) = 0 \<and>
   nr_frozen_tasks (freezer (cgrps (cgroup_freezer_migrate_task 1 [1] [2, 1] ex_migrating) [2, 1])) = 1 \<and>
   frozen (tasks (cgroup_freezer_migrate_task 1 [1] [2, 1] ex_migrating) 1)"
proof -
  have h1: "\<not> pf_kthread (tasks ex_migrating 1)"
    by (simp add: model_defs ex_migrating_def)
  have h2: "frozen (tasks ex_migrating 1)"
    by (simp add: model_defs ex_migrating_def)
  have h3: "[1] \<noteq> [2, 1 :: nat]"
    by simp
  have n1: "nr_frozen_tasks (freezer (cgrps ex_migrating [1])) = 1"
    by (simp add: model_defs ex_migrating_def)
  have n2: "nr_frozen_tasks (freezer (cgrps ex_migrating [2, 1])) = 0"
    by (simp add: model_defs ex_migrating_def)
  from cgroup_freezer_migrate_frozen_task [OF h1 h2 h3] h1 h2 n1 n2 show ?thesis
    by simp
qed



text \<open>
  C10. \<open>unfreeze_cgroup\<close> thaws every task the iteration over the freezer yields and then
  every thread of the system whose real uid is the uid of the last task of the freezer that
  has credentials: where the freezer owns a task with credentials, threads outside the freezer
  are thawed too.
\<close>

theorem unfreeze_cgroup_thaws_by_uid:
  assumes "filter (\<lambda>t. real_cred (ltasks s t) \<noteq> None) (css_tasks s f) \<noteq> []"
    and "real_cred (ltasks s (last (filter (\<lambda>t. real_cred (ltasks s t) \<noteq> None) (css_tasks s f))))
           = Some u"
  shows "levents (unfreeze_cgroup f s) =
           levents s @ map Thaw_task (css_tasks s f) @
           map Thaw_task (filter (\<lambda>p. real_cred (ltasks s p) = Some u) (all_threads s)) \<and>
         (\<forall>p \<in> set (all_threads s). real_cred (ltasks s p) = Some u \<longrightarrow>
            Thaw_task p \<in> set (levents (unfreeze_cgroup f s)))"
  using assms by (auto simp add: unfreeze_cgroup_eq tmp_uid_of_def split: list.splits)

theorem unfreeze_cgroup_thaws_by_uid_witness:
  "filter (\<lambda>t. real_cred (ltasks ex_lstate t) \<noteq> None) (css_tasks ex_lstate [1]) \<noteq> [] \<and>
   real_cred (ltasks ex_lstate
     (last (filter (\<lambda>t. real_cred (ltasks ex_lstate t) \<noteq> None) (css_tasks ex_lstate [1]))))
     = Some 1001 \<and>
   levents (unfreeze_cgroup [1] ex_lstate) =
     [Thaw_task 10, Thaw_task 11, Thaw_task 11, Thaw_task 13] \<and>
   13 \<notin> set (css_tasks ex_lstate [1])"
proof -
  have h1: "filter (\<lambda>t. real_cred (ltasks ex_lstate t) \<noteq> None) (css_tasks ex_lstate [1]) \<noteq> []"
    by (simp add: ex_lstate_def)
  have h2: "real_cred (ltasks ex_lstate
     (last (filter (\<lambda>t. real_cred (ltasks ex_lstate t) \<noteq> None) (css_tasks ex_lstate [1]))))
     = Some 1001"
    by (simp add: ex_lstate_def)
  have "levents (unfreeze_cgroup [1] ex_lstate) =
     [Thaw_task 10, Thaw_task 11, Thaw_task 11, Thaw_task 13]"
    using unfreeze_cgroup_thaws_by_uid [OF h1 h2] by (simp add: ex_lstate_def)
  with h1 h2 show ?thesis by (simp add: ex_lstate_def)
qed

text \<open>
  C9. \<open>freezer_apply_state\<close>, called with one of the two \<open>FREEZING\<close> flags, adds one to
  \<open>system_freezing_cnt\<close> exactly when its freezer goes from not freezing to freezing and
  subtracts one exactly when it goes from freezing to not freezing. Hence
  \<open>freezer_change_state\<close> and \<open>unfreezer_fork\<close> keep the counter equal to the number of online
  freezers that have a \<open>FREEZING\<close> flag set.
\<close>

theorem system_freezing_cnt_tracks_freezing:
  "(st = CGROUP_FREEZING_SELF \<or> st = CGROUP_FREEZING_PARENT \<longrightarrow>
      system_freezing_cnt (freezer_apply_state f fz st s) =
        system_freezing_cnt s
        + (if \<not> is_freezing (freezers s f) \<and> is_freezing (freezers (freezer_apply_state f fz st s) f)
           then 1 else 0)
        - (if is_freezing (freezers s f) \<and> \<not> is_freezing (freezers (freezer_apply_state f fz st s) f)
           then 1 else 0)) \<and>
   (distinct (all_css s) \<and> cnt_inv s \<longrightarrow>
      cnt_inv (freezer_change_state f fz s) \<and> cnt_inv (unfreezer_fork t s))"
  by (simp add: apply_state_cnt freezer_change_state_cnt_inv unfreezer_fork_def Let_def)

theorem system_freezing_cnt_tracks_freezing_witness:
  "distinct (all_css ex_lstate) \<and> cnt_inv ex_lstate \<and>
   system_freezing_cnt (freezer_apply_state [1] True CGROUP_FREEZING_SELF ex_lstate) = 1 \<and>
   is_freezing (freezers (freezer_apply_state [1] True CGROUP_FREEZING_SELF ex_lstate) [1]) \<and>
   cnt_inv (freezer_change_state [1] True ex_lstate) \<and>
   cnt_inv (unfreezer_fork 10 ex_lstate)"
proof -
  have d: "distinct (all_css ex_lstate)"
    by (simp add: ex_lstate_def)
  have c: "cnt_inv ex_lstate"
    by (simp add: cnt_inv_def ex_lstate_def mk_freezer_def is_freezing_def flag_values)
  have n: "\<not> is_freezing (freezers ex_lstate [1])"
    by (simp add: ex_lstate_def mk_freezer_def is_freezing_def flag_values)
  have a: "is_freezing (freezers (freezer_apply_state [1] True CGROUP_FREEZING_SELF ex_lstate) [1])"
    by (simp add: apply_state_freezers apply_state_word_def ex_lstate_def mk_freezer_def
          is_freezing_def flag_values)
  have z: "system_freezing_cnt ex_lstate = 0"
    by (simp add: ex_lstate_def)
  from system_freezing_cnt_tracks_freezing [of CGROUP_FREEZING_SELF "[1]" True ex_lstate 10]
    d c n a z show ?thesis by simp
qed

text \<open>
  C3, as stated, fails. In \<open>ex_forked\<close> the freezer \<open>[1]\<close> has its recorded intent set
  (\<open>oem_freeze_flag = 1\<close>) and is freezing, and task 14 has been forked into it without having
  received a freeze action. \<open>unfreezer_fork\<close> issues no freeze action to task 14; it thaws it,
  clears the \<open>FREEZING\<close> flags of \<open>[1]\<close> and resets the recorded intent.
\<close>

theorem unfreezer_fork_counterexample:
  "\<not> task_css_is_root 14 ex_forked \<and>
   oem_freeze_flag (freezers ex_forked (task_freezer (ltasks ex_forked 14))) = 1 \<and>
   state (freezers ex_forked [1]) AND CGROUP_FREEZING \<noteq> 0 \<and>
   Freeze_cgroup_task 14 \<notin> set (levents (unfreezer_fork 14 ex_forked)) \<and>
   last (levents (unfreezer_fork 14 ex_forked)) = Thaw_task 14 \<and>
   state (freezers (unfreezer_fork 14 ex_forked) [1]) AND CGROUP_FREEZING = 0 \<and>
   oem_freeze_flag (freezers (unfreezer_fork 14 ex_forked) [1]) = 0"
  by (simp add: legacy_defs ex_forked_def)

text \<open>
  C3, amended. For a task in a freezer \<open>f\<close> other than the root whose \<open>oem_freeze_flag\<close> is 1,
  \<open>unfreezer_fork\<close> is \<open>freezer_change_state(freezer, 0)\<close>: it resets the recorded intent to 0
  and, \<open>f\<close> being online, clears \<open>CGROUP_FREEZING_SELF\<close> of \<open>f\<close>. If \<open>f\<close> is not held by an
  ancestor (no \<open>CGROUP_FREEZING_PARENT\<close>), no \<open>FREEZING\<close> flag and no \<open>CGROUP_FROZEN\<close> remain
  on \<open>f\<close> and every task of \<open>f\<close> is thawed. The hook issues no freeze action to a task that
  belongs to \<open>f\<close> only.
\<close>

theorem unfreezer_fork_thaws_group:
  assumes "task_freezer (ltasks s t) = f" and "f \<noteq> []" and "oem_freeze_flag (freezers s f) = 1"
    and "distinct (all_css s)" and "f \<in> set (all_css s)"
    and "css_online (freezers s f)" and "state (freezers s f) AND CGROUP_FREEZER_ONLINE \<noteq> 0"
  shows "unfreezer_fork t s = freezer_change_state f False s \<and>
         oem_freeze_flag (freezers (unfreezer_fork t s) f) = 0 \<and>
         state (freezers (unfreezer_fork t s) f) AND CGROUP_FREEZING_SELF = 0 \<and>
         (state (freezers s f) AND CGROUP_FREEZING_PARENT = 0 \<longrightarrow>
            state (freezers (unfreezer_fork t s) f) AND CGROUP_FREEZING = 0 \<and>
            state (freezers (unfreezer_fork t s) f) AND CGROUP_FROZEN = 0 \<and>
            (\<forall>x \<in> set (css_tasks s f). Thaw_task x \<in> set (levents (unfreezer_fork t s)))) \<and>
         ((\<forall>g. t \<in> set (css_tasks s g) \<longrightarrow> g = f) \<and>
          Freeze_cgroup_task t \<notin> set (levents s) \<longrightarrow>
            Freeze_cgroup_task t \<notin> set (levents (unfreezer_fork t s)))"
proof -
  let ?s1 = "upd_freezer f (\<lambda>x. x\<lparr>oem_freeze_flag := 0\<rparr>) s"
  let ?ds = "css_descendants_pre f ?s1"
  have eq: "unfreezer_fork t s = freezer_change_state f False s"
    using assms(1-3) by (simp add: unfreezer_fork_def task_css_is_root_def)
  have fold_eq: "freezer_change_state f False s = fold (change_state_step f False) ?ds ?s1"
    by (simp add: freezer_change_state_def Let_def)
  have ds: "distinct ?ds" "f \<in> set ?ds"
    using assms(4,5) by (cases f; simp add: css_descendants_pre_def)+
  have root: "freezers (unfreezer_fork t s) f =
      (freezers ?s1 f)\<lparr>state := apply_state_word False CGROUP_FREEZING_SELF (state (freezers ?s1 f))\<rparr>"
    using assms(6) by (simp add: eq fold_eq fold_step_root [OF ds] step_freezers_root)
  have oem: "oem_freeze_flag (freezers (unfreezer_fork t s) f) = 0"
    by (simp add: root)
  have self: "state (freezers (unfreezer_fork t s) f) AND CGROUP_FREEZING_SELF = 0"
    using assms(7) by (simp add: root apply_state_word_def flag_values and.assoc)
  have thaw: "state (freezers s f) AND CGROUP_FREEZING_PARENT = 0 \<longrightarrow>
           state (freezers (unfreezer_fork t s) f) AND CGROUP_FREEZING = 0 \<and>
           state (freezers (unfreezer_fork t s) f) AND CGROUP_FROZEN = 0 \<and>
           (\<forall>x \<in> set (css_tasks s f). Thaw_task x \<in> set (levents (unfreezer_fork t s)))"
  proof (intro impI conjI ballI)
    assume np: "state (freezers s f) AND CGROUP_FREEZING_PARENT = 0"
    have w: "(state (freezers s f) AND NOT CGROUP_FREEZING_SELF) AND CGROUP_FREEZING =
        state (freezers s f) AND CGROUP_FREEZING_PARENT"
      by (simp add: flag_values and.assoc)
    from np w assms(7) show "state (freezers (unfreezer_fork t s) f) AND CGROUP_FREEZING = 0"
      by (simp add: root apply_state_word_def and_not_keeps_zero)
    from np w assms(7) show "state (freezers (unfreezer_fork t s) f) AND CGROUP_FROZEN = 0"
      by (simp add: root apply_state_word_def and.assoc)
    fix x assume "x \<in> set (css_tasks s f)"
    with np assms(6,7) show "Thaw_task x \<in> set (levents (unfreezer_fork t s))"
      unfolding eq fold_eq by (intro fold_step_root_thaws ds) simp_all
  qed
  have nofreeze: "(\<forall>g. t \<in> set (css_tasks s g) \<longrightarrow> g = f) \<and>
         Freeze_cgroup_task t \<notin> set (levents s) \<longrightarrow>
           Freeze_cgroup_task t \<notin> set (levents (unfreezer_fork t s))"
  proof (intro impI notI, elim conjE)
    assume own: "\<forall>g. t \<in> set (css_tasks s g) \<longrightarrow> g = f"
      and old: "Freeze_cgroup_task t \<notin> set (levents s)"
      and new: "Freeze_cgroup_task t \<in> set (levents (unfreezer_fork t s))"
    have own': "g = f" if "t \<in> set (css_tasks ?s1 g)" for g
      using own that by simp
    have new': "Freeze_cgroup_task t \<in> set (levents (fold (change_state_step f False) ?ds ?s1))"
      using new unfolding eq fold_eq .
    have "Freeze_cgroup_task t \<in> set (levents ?s1)"
      using own' new' by (rule fold_step_no_freeze_event)
    with old show False by simp
  qed
  from eq oem self thaw nofreeze show ?thesis by blast
qed

theorem unfreezer_fork_thaws_group_witness:
  "task_freezer (ltasks ex_forked 14) = [1] \<and>
   oem_freeze_flag (freezers ex_forked [1]) = 1 \<and>
   distinct (all_css ex_forked) \<and> [1] \<in> set (all_css ex_forked) \<and>
   css_online (freezers ex_forked [1]) \<and>
   state (freezers ex_forked [1]) AND CGROUP_FREEZER_ONLINE \<noteq> 0 \<and>
   state (freezers ex_forked [1]) AND CGROUP_FREEZING_PARENT = 0 \<and>
   14 \<in> set (css_tasks ex_forked [1]) \<and>
   unfreezer_fork 14 ex_forked = freezer_change_state [1] False ex_forked \<and>
   oem_freeze_flag (freezers (unfreezer_fork 14 ex_forked) [1]) = 0 \<and>
   state (freezers (unfreezer_fork 14 ex_forked) [1]) AND CGROUP_FREEZING = 0 \<and>
   Thaw_task 14 \<in> set (levents (unfreezer_fork 14 ex_forked))"
proof -
  have h1: "task_freezer (ltasks ex_forked 14) = [1]"
    by (simp add: legacy_defs ex_forked_def)
  have h2: "[1] \<noteq> ([] :: cgrp_id)"
    by simp
  have h3: "oem_freeze_flag (freezers ex_forked [1]) = 1"
    by (simp add: legacy_defs ex_forked_def)
  have h4: "distinct (all_css ex_forked)"
    by (simp add: legacy_defs ex_forked_def)
  have h5: "[1] \<in> set (all_css ex_forked)"
    by (simp add: legacy_defs ex_forked_def)
  have h6: "css_online (freezers ex_forked [1])"
    by (simp add: legacy_defs ex_forked_def)
  have h7: "state (freezers ex_forked [1]) AND CGROUP_FREEZER_ONLINE \<noteq> 0"
    by (simp add: legacy_defs ex_forked_def)
  have h8: "state (freezers ex_forked [1]) AND CGROUP_FREEZING_PARENT = 0"
    by (simp add: legacy_defs ex_forked_def)
  have h9: "14 \<in> set (css_tasks ex_forked [1])"
    by (simp add: legacy_defs ex_forked_def)
  from unfreezer_fork_thaws_group [OF h1 h2 h3 h4 h5 h6 h7] h8 h9
  have "unfreezer_fork 14 ex_forked = freezer_change_state [1] False ex_forked \<and>
        oem_freeze_flag (freezers (unfreezer_fork 14 ex_forked) [1]) = 0 \<and>
        state (freezers (unfreezer_fork 14 ex_forked) [1]) AND CGROUP_FREEZING = 0 \<and>
        Thaw_task 14 \<in> set (levents (unfreezer_fork 14 ex_forked))"
    by blast
  with h1 h3 h4 h5 h6 h7 h8 h9 show ?thesis by blast
qed

text \<open>
  C7, as stated, fails. A negative value is not treated as a fatal assertion. Starting from
  the example hierarchy, the exit hook \<open>cgroup_freezer_frozen_exit\<close> is run for task 1, which
  is not frozen: \<open>cgroup_dec_frozen_cnt\<close> takes the frozen-task count of \<open>[1]\<close> to -1, the
  \<open>WARN_ON_ONCE\<close> is recorded, and the hook returns with the count still -1. In
  \<open>ex_unbalanced\<close> the request of \<open>[1]\<close> is withdrawn while its effective freeze counter is
  0: the counter becomes -1, the \<open>WARN_ON_ONCE\<close> is recorded, and \<open>cgroup_do_freeze\<close> still
  runs (task 1 is woken); the walk then goes on to \<open>[2, 1]\<close>, where the same happens. Both
  counters are still -1 when \<open>cgroup_freeze\<close> returns. A following freeze request for \<open>[1]\<close>
  increments the counter from -1 to 0 without any test and freezes the tasks.
\<close>

theorem warn_on_once_continues_counterexample:
  "events (cgroup_freezer_frozen_exit 1 ex_state) = [Warn_on_once] \<and>
   nr_frozen_tasks (freezer (cgrps (cgroup_freezer_frozen_exit 1 ex_state) [1])) = - 1 \<and>
   freeze (freezer (cgrps ex_unbalanced [1])) \<and>
   e_freeze (freezer (cgrps ex_unbalanced [1])) = 0 \<and>
   events (cgroup_freeze [1] False ex_unbalanced) =
     [Warn_on_once, Wake_up_process 1, Warn_on_once, Wake_up_process 2] \<and>
   e_freeze (freezer (cgrps (cgroup_freeze [1] False ex_unbalanced) [1])) = - 1 \<and>
   e_freeze (freezer (cgrps (cgroup_freeze [1] False ex_unbalanced) [2, 1])) = - 1 \<and>
   e_freeze (freezer
     (cgrps (cgroup_freeze [1] True (cgroup_freeze [1] False ex_unbalanced)) [1])) = 0 \<and>
   events (cgroup_freeze [1] True (cgroup_freeze [1] False ex_unbalanced)) =
     [Warn_on_once, Wake_up_process 1, Warn_on_once, Wake_up_process 2,
      Signal_wake_up 1, Signal_wake_up 2]"
  by (simp add: model_defs ex_unbalanced_def)

text \<open>
  C7, amended. Start from a state in which the counters are what they count (\<open>consistent\<close>),
  for instance a hierarchy in which nothing has been frozen yet, and apply any sequence of
  matched calls: freeze and thaw requests, tasks entering the frozen state after having been
  asked to, frozen tasks leaving it or exiting, and migrations. Then no effective freeze
  counter and no frozen-task count is negative, and neither \<open>WARN_ON_ONCE\<close> of the file has
  fired. A negative value is reported and kept, in any state: when \<open>cgroup_dec_frozen_cnt\<close>
  finds a count that is not positive, it decrements the count and records the
  \<open>WARN_ON_ONCE\<close>; when a thaw round of \<open>cgroup_freeze\<close> finds a live group with a counter
  that is not positive, it decrements the counter, records the \<open>WARN_ON_ONCE\<close>, and
  \<open>cgroup_do_freeze\<close> is applied to the group all the same.
\<close>

theorem matched_calls_keep_counters_nonnegative:
  assumes "consistent s0" and "run ops s0 = Some s"
  shows "(\<forall>g. 0 \<le> e_freeze (freezer (cgrps s g)) \<and> 0 \<le> nr_frozen_tasks (freezer (cgrps s g))) \<and>
         Warn_on_once \<notin> set (events s) \<and>
         (\<forall>u g. nr_frozen_tasks (freezer (cgrps u g)) \<le> 0 \<longrightarrow>
            cgroup_dec_frozen_cnt g u =
              emit Warn_on_once (upd_cgrp g (\<lambda>c. c\<lparr>freezer := (freezer c)
                \<lparr>nr_frozen_tasks := nr_frozen_tasks (freezer c) - 1\<rparr>\<rparr>) u)) \<and>
         (\<forall>u d a. \<not> is_dead (cgrps u d) \<and> e_freeze (freezer (cgrps u d)) \<le> 0 \<longrightarrow>
            cgroup_freeze_step False d (u, a) =
              (cgroup_do_freeze d False (emit Warn_on_once (bump_depth False d u)), True))"
proof -
  from assms have c: "consistent s" by (rule run_consistent)
  then have "Warn_on_once \<notin> set (events s)" by (simp add: consistent_def)
  with consistent_nonneg [OF c] show ?thesis
    using step_negative dec_frozen_cnt_negative by simp
qed

theorem matched_calls_keep_counters_nonnegative_witness:
  "consistent ex_state \<and>
   (\<exists>s. run ex_ops ex_state = Some s \<and>
        (\<forall>g. 0 \<le> e_freeze (freezer (cgrps s g)) \<and> 0 \<le> nr_frozen_tasks (freezer (cgrps s g))) \<and>
        Warn_on_once \<notin> set (events s)) \<and>
   nr_frozen_tasks (freezer (cgrps ex_state [1])) \<le> 0 \<and>
   events (cgroup_dec_frozen_cnt [1] ex_state) = [Warn_on_once] \<and>
   \<not> is_dead (cgrps ex_unbalanced [1]) \<and> e_freeze (freezer (cgrps ex_unbalanced [1])) \<le> 0 \<and>
   cgroup_freeze_step False [1] (ex_unbalanced, False) =
     (cgroup_do_freeze [1] False (emit Warn_on_once (bump_depth False [1] ex_unbalanced)), True)"
proof -
  have c: "consistent ex_state"
    by (auto simp add: consistent_def frozen_cnt_inv_def kthread_inv_def depth_inv_def
          frozen_tasks_of_def model_defs)
  have "run ex_ops ex_state \<noteq> None"
    by (simp add: model_defs ex_ops_def)
  then obtain s where r: "run ex_ops ex_state = Some s" by auto
  note m = matched_calls_keep_counters_nonnegative [OF c r]
  from m have m1: "(\<forall>g. 0 \<le> e_freeze (freezer (cgrps s g)) \<and>
                         0 \<le> nr_frozen_tasks (freezer (cgrps s g))) \<and>
                   Warn_on_once \<notin> set (events s)"
    by blast
  have n1: "nr_frozen_tasks (freezer (cgrps ex_state [1])) \<le> 0"
    by (simp add: model_defs)
  from m have "\<forall>u g. nr_frozen_tasks (freezer (cgrps u g)) \<le> 0 \<longrightarrow>
            cgroup_dec_frozen_cnt g u =
              emit Warn_on_once (upd_cgrp g (\<lambda>c. c\<lparr>freezer := (freezer c)
                \<lparr>nr_frozen_tasks := nr_frozen_tasks (freezer c) - 1\<rparr>\<rparr>) u)"
    by blast
  with n1 have "cgroup_dec_frozen_cnt [1] ex_state =
              emit Warn_on_once (upd_cgrp [1] (\<lambda>c. c\<lparr>freezer := (freezer c)
                \<lparr>nr_frozen_tasks := nr_frozen_tasks (freezer c) - 1\<rparr>\<rparr>) ex_state)"
    by blast
  then have m2: "events (cgroup_dec_frozen_cnt [1] ex_state) = [Warn_on_once]"
    by (simp add: ex_state_def)
  have n2: "\<not> is_dead (cgrps ex_unbalanced [1])" "e_freeze (freezer (cgrps ex_unbalanced [1])) \<le> 0"
    by (simp_all add: model_defs ex_unbalanced_def)
  from m have "\<forall>u d a. \<not> is_dead (cgrps u d) \<and> e_freeze (freezer (cgrps u d)) \<le> 0 \<longrightarrow>
            cgroup_freeze_step False d (u, a) =
              (cgroup_do_freeze d False (emit Warn_on_once (bump_depth False d u)), True)"
    by blast
  with n2 have m3: "cgroup_freeze_step False [1] (ex_unbalanced, False) =
     (cgroup_do_freeze [1] False (emit Warn_on_once (bump_depth False [1] ex_unbalanced)), True)"
    by blast
  from c r m1 n1 m2 n2 m3 show ?thesis by blast
qed

text \<open>
  C4. From a consistent state in which the task count of every group is the number of its
  tasks that are not kernel threads, and under any sequence of matched calls: a kernel thread
  is never frozen, never has \<open>JOBCTL_TRAP_FREEZE\<close> set and is never sent a freeze action, and
  the migration hook returns at once for it; the task count of every group is still the
  number of its tasks that are not kernel threads, so that \<open>cgroup_update_frozen\<close> sets
  \<open>CGRP_FROZEN\<close> on a group exactly if \<open>CGRP_FREEZE\<close> is set and all of these tasks are frozen.
  The maintenance of the task count is taken from the spec.
\<close>

theorem kernel_threads_exempt:
  assumes "consistent s0" and "task_cnt_inv s0" and "run ops s0 = Some s"
  shows "(\<forall>t. pf_kthread (tasks s t) \<longrightarrow>
            \<not> frozen (tasks s t) \<and> \<not> trap_freeze (tasks s t) \<and>
            Signal_wake_up t \<notin> set (events s) \<and>
            (\<forall>src dst. cgroup_freezer_migrate_task t src dst s = s)) \<and>
         (\<forall>g. task_count (cgrps s g) = int (length (user_tasks_of s g))) \<and>
         (\<forall>g. (CGRP_FROZEN \<in> flags (cgrps (cgroup_update_frozen g s) g)) =
                (CGRP_FREEZE \<in> flags (cgrps s g) \<and>
                 length (frozen_tasks_of s g) = length (user_tasks_of s g)))"
proof -
  from assms(1,3) have c: "consistent s" by (rule run_consistent)
  from assms have t: "task_cnt_inv s" by (rule run_task_cnt_inv)
  from c have k: "kthread_inv s" and f: "frozen_cnt_inv s"
    by (simp_all add: consistent_def)
  have m: "cgroup_freezer_migrate_task x src dst s = s" if "pf_kthread (tasks s x)" for x src dst
    using that by (simp add: cgroup_freezer_migrate_task_def)
  from k m t update_frozen_complete [OF f t] show ?thesis
    by (simp add: kthread_inv_def task_cnt_inv_def)
qed

theorem kernel_threads_exempt_witness:
  "consistent ex_state \<and> task_cnt_inv ex_state \<and> pf_kthread (tasks ex_state 3) \<and>
   (\<exists>s. run ex_ops ex_state = Some s \<and> pf_kthread (tasks s 3) \<and>
        \<not> frozen (tasks s 3) \<and> \<not> trap_freeze (tasks s 3) \<and>
        Signal_wake_up 3 \<notin> set (events s) \<and>
        task_count (cgrps s [1]) = int (length (user_tasks_of s [1])))"
proof -
  have c: "consistent ex_state"
    by (auto simp add: consistent_def frozen_cnt_inv_def kthread_inv_def depth_inv_def
          frozen_tasks_of_def model_defs)
  have t: "task_cnt_inv ex_state"
    by (auto simp add: task_cnt_inv_def user_tasks_of_def model_defs)
  have k0: "pf_kthread (tasks ex_state 3)"
    by (simp add: model_defs)
  have "run ex_ops ex_state \<noteq> None"
    by (simp add: model_defs ex_ops_def)
  then obtain s where r: "run ex_ops ex_state = Some s" by auto
  have k: "pf_kthread (tasks s 3)"
    using k0 run_kthread [OF r] by simp
  from kernel_threads_exempt [OF c t r] k c t k0 r show ?thesis by blast
qed

end
